theory Spec2Isabelle
  imports Main "HOL-Library.Finite_Map" "HOL-Library.Word" "HOL-Library.Monad_Syntax"
begin

section \<open>Values\<close>

text \<open>
  A Go \<^verbatim>\<open>interface{}\<close> value, restricted to the kinds the store and its codecs
  distinguish. \<open>PtrDeleted\<close> is the pointer \<^verbatim>\<open>&Deleted\<close> to the exported package
  variable; \<open>VDict a\<close> is a \<^verbatim>\<open>*Dict\<close> pointing at address \<open>a\<close>. A \<^verbatim>\<open>float64\<close> is kept
  as its IEEE-754 bit pattern and a \<^verbatim>\<open>time.Time\<close> as nanoseconds since the epoch:
  neither is computed with here.
\<close>

datatype float64 = Float64 "64 word"

datatype time = Time int

datatype val =
    VNil
  | PtrDeleted
  | VBool bool
  | VInt int
  | VUint64 "64 word"
  | VInt64 "64 word"
  | VFloat64 float64
  | VString string
  | VTime time
  | VArr "val list"
  | VDict nat

section \<open>The Go library\<close>

text \<open>
  Three functions of the Go standard library that the package calls are not computed
  here but taken as parameters, so that every general result holds whatever they
  return: \<^verbatim>\<open>strings.ToLower\<close> (Unicode case folding, with the replacement of invalid
  UTF-8), \<^verbatim>\<open>strconv.ParseFloat(_, 64)\<close> and \<^verbatim>\<open>time.Parse(time.RFC3339, _)\<close>; for the two
  parsers \<open>None\<close> is a parse error.
\<close>

record Lib =
  strings_ToLower :: "string \<Rightarrow> string"
  ParseFloat :: "string \<Rightarrow> float64 option"
  time_Parse :: "string \<Rightarrow> time option"

text \<open>
  Folding a folded string changes nothing. The results that need it of
  \<^verbatim>\<open>strings.ToLower\<close> say so.
\<close>

definition lower_idempotent :: "Lib \<Rightarrow> bool" where
  "lower_idempotent L = (\<forall>s. strings_ToLower L (strings_ToLower L s) = strings_ToLower L s)"

text \<open>
  For runs on concrete keys: the folding of the letters A to Z to a to z, every other
  byte unchanged. This is what \<^verbatim>\<open>strings.ToLower\<close> returns on a string of ASCII bytes,
  and the concrete runs below fold ASCII keys only.
\<close>

definition ascii_lower_byte :: "char \<Rightarrow> char" where
  "ascii_lower_byte c =
     (if 65 \<le> (of_char c :: nat) \<and> (of_char c :: nat) \<le> 90
      then char_of ((of_char c :: nat) + 32) else c)"

definition ascii_lower :: "string \<Rightarrow> string" where
  "ascii_lower s = map ascii_lower_byte s"

section \<open>The ordered store\<close>

record Item =
  Key :: string
  Value :: val

definition IsDeleted :: "Item \<Rightarrow> bool" where
  "IsDeleted self = (Value self = PtrDeleted)"

text \<open>
  The \<^verbatim>\<open>Dict\<close> struct without its mutex: the model is sequential, every operation runs
  to completion. \<open>store\<close> is the Go map from normalized key to item index.
\<close>

record Dict =
  items :: "Item list"
  store :: "(string, nat) fmap"
  case_insensitive :: bool
  default_value :: val

definition NewDict :: Dict where
  "NewDict = \<lparr>items = [], store = fmempty, case_insensitive = False, default_value = VNil\<rparr>"

definition getKey :: "Lib \<Rightarrow> Dict \<Rightarrow> string \<Rightarrow> string" where
  "getKey L self key = (if case_insensitive self then strings_ToLower L key else key)"

definition IsCaseInsensitive :: "Dict \<Rightarrow> bool" where
  "IsCaseInsensitive self = case_insensitive self"

definition SetDefault :: "Dict \<Rightarrow> val \<Rightarrow> Dict" where
  "SetDefault self v = self\<lparr>default_value := v\<rparr>"

definition GetDefault :: "Dict \<Rightarrow> val" where
  "GetDefault self = default_value self"

text \<open>
  \<^verbatim>\<open>self.items[idx].Value = v\<close>. Go panics when \<open>idx\<close> is out of range; the panic is the
  result \<open>None\<close>.
\<close>

definition set_value :: "Item list \<Rightarrow> nat \<Rightarrow> val \<Rightarrow> Item list option" where
  "set_value xs idx v =
     (if idx < length xs then Some (xs[idx := (xs ! idx)\<lparr>Value := v\<rparr>]) else None)"

text \<open>The loop of \<^verbatim>\<open>maybeCompact\<close> over \<^verbatim>\<open>self.items\<close>, with \<^verbatim>\<open>new_store\<close> and \<^verbatim>\<open>new_items\<close>.\<close>

fun compact_loop ::
  "Lib \<Rightarrow> Dict \<Rightarrow> Item list \<Rightarrow> (string, nat) fmap \<Rightarrow> Item list \<Rightarrow> (string, nat) fmap \<times> Item list"
where
  "compact_loop L self [] new_store new_items = (new_store, new_items)"
| "compact_loop L self (item # rest) new_store new_items =
     (if IsDeleted item then compact_loop L self rest new_store new_items
      else compact_loop L self rest
             (fmupd (getKey L self (Key item)) (length new_items) new_store)
             (new_items @ [\<lparr>Key = Key item, Value = Value item\<rparr>]))"

text \<open>
  \<^verbatim>\<open>len(self.items)-len(self.store) < 10\<close> is a comparison of Go ints, so it is made on
  \<open>int\<close>: the difference may be negative.
\<close>

definition maybeCompact :: "Lib \<Rightarrow> Dict \<Rightarrow> Dict" where
  "maybeCompact L self =
     (if int (length (items self)) - int (fcard (fmdom (store self))) < 10 then self
      else (case compact_loop L self (items self) fmempty [] of
              (new_store, new_items) \<Rightarrow> self\<lparr>store := new_store, items := new_items\<rparr>))"

definition set' :: "Lib \<Rightarrow> Dict \<Rightarrow> string \<Rightarrow> val \<Rightarrow> Dict option" where
  "set' L self key v =
     (let norm_key = getKey L self key;
          marked = (case fmlookup (store self) norm_key of
                      None \<Rightarrow> Some (items self)
                    | Some idx \<Rightarrow> set_value (items self) idx PtrDeleted)
      in case marked of
           None \<Rightarrow> None
         | Some xs \<Rightarrow>
             Some (maybeCompact L
               (self\<lparr>store := fmupd norm_key (length xs) (store self),
                     items := xs @ [\<lparr>Key = key, Value = v\<rparr>]\<rparr>)))"

definition Set :: "Lib \<Rightarrow> Dict \<Rightarrow> string \<Rightarrow> val \<Rightarrow> Dict option" where
  "Set L self key v = set' L self key v"

definition Update :: "Lib \<Rightarrow> Dict \<Rightarrow> string \<Rightarrow> val \<Rightarrow> Dict option" where
  "Update L self key v =
     (let norm_key = getKey L self key
      in case fmlookup (store self) norm_key of
           Some idx \<Rightarrow>
             (case set_value (items self) idx v of
                None \<Rightarrow> None
              | Some xs \<Rightarrow> Some (self\<lparr>items := xs\<rparr>))
         | None \<Rightarrow>
             Some (maybeCompact L
               (self\<lparr>store := fmupd norm_key (length (items self)) (store self),
                     items := items self @ [\<lparr>Key = key, Value = v\<rparr>]\<rparr>)))"

text \<open>
  \<^verbatim>\<open>Delete\<close> looks the index up under \<^verbatim>\<open>self.getKey(key)\<close> and then removes the literal
  \<^verbatim>\<open>key\<close> from the map: \<^verbatim>\<open>delete(self.store, key)\<close>.
\<close>

definition Delete :: "Lib \<Rightarrow> Dict \<Rightarrow> string \<Rightarrow> Dict option" where
  "Delete L self key =
     (case fmlookup (store self) (getKey L self key) of
        None \<Rightarrow> Some self
      | Some idx \<Rightarrow>
          (case set_value (items self) idx PtrDeleted of
             None \<Rightarrow> None
           | Some xs \<Rightarrow> Some (self\<lparr>store := fmdrop key (store self), items := xs\<rparr>)))"

definition Len :: "Dict \<Rightarrow> nat" where
  "Len self = fcard (fmdom (store self))"

text \<open>\<^verbatim>\<open>Get\<close> returns the value and the found flag; \<^verbatim>\<open>self.items[idx]\<close> may panic.\<close>

definition Get :: "Lib \<Rightarrow> Dict \<Rightarrow> string \<Rightarrow> (val \<times> bool) option" where
  "Get L self key =
     (case fmlookup (store self) (getKey L self key) of
        None \<Rightarrow> (if default_value self \<noteq> VNil then Some (default_value self, False)
                 else Some (VNil, False))
      | Some idx \<Rightarrow>
          (if idx < length (items self) then Some (Value (items self ! idx), True)
           else None))"

definition Items :: "Dict \<Rightarrow> Item list" where
  "Items self = filter (\<lambda>i. \<not> IsDeleted i) (items self)"

definition Keys :: "Dict \<Rightarrow> string list" where
  "Keys self = map Key (filter (\<lambda>i. \<not> IsDeleted i) (items self))"

definition Values :: "Dict \<Rightarrow> val list" where
  "Values self = map Value (filter (\<lambda>i. \<not> IsDeleted i) (items self))"

text \<open>\<^verbatim>\<open>MergeFrom\<close>: one \<^verbatim>\<open>Set\<close> per item of \<^verbatim>\<open>other.Items()\<close>, in order.\<close>

fun set_all :: "Lib \<Rightarrow> Dict \<Rightarrow> Item list \<Rightarrow> Dict option" where
  "set_all L self [] = Some self"
| "set_all L self (item # rest) =
     (case Set L self (Key item) (Value item) of
        None \<Rightarrow> None
      | Some self' \<Rightarrow> set_all L self' rest)"

definition MergeFrom :: "Lib \<Rightarrow> Dict \<Rightarrow> Dict \<Rightarrow> Dict option" where
  "MergeFrom L self other = set_all L self (Items other)"

definition SetCaseInsensitive :: "Lib \<Rightarrow> Dict \<Rightarrow> Dict option" where
  "SetCaseInsensitive L self =
     set_all L \<lparr>items = [], store = fmempty, case_insensitive = True, default_value = VNil\<rparr>
       (filter (\<lambda>i. \<not> IsDeleted i) (Items self))"

text \<open>\<^verbatim>\<open>Copy\<close> builds a new item slice and a new map with the same contents and flags.\<close>

definition Copy :: "Dict \<Rightarrow> Dict" where
  "Copy self =
     \<lparr>items = [] @ items self,
      store = fmadd fmempty (store self),
      case_insensitive = case_insensitive self,
      default_value = default_value self\<rparr>"

section \<open>The encoder\<close>

text \<open>
  \<^verbatim>\<open>json.Marshal\<close> belongs to the structured-text library, not to this package, so it is
  a parameter \<open>jm\<close> of the encoder. A call either returns bytes, returns an error, or
  does not return at all (the library calls back into \<^verbatim>\<open>MarshalJSON\<close> for nested stores
  and may recurse without bound).
\<close>

datatype marshal_result = Bytes string | MarshalError | NoReturn

text \<open>
  The loop of \<^verbatim>\<open>MarshalJSON\<close> over \<^verbatim>\<open>self.Items()\<close>, writing to \<open>buf\<close>. \<open>self\<close> is the
  address of the store being encoded; \<open>None\<close> means that the loop does not return.
\<close>

fun marshal_loop :: "(val \<Rightarrow> marshal_result) \<Rightarrow> nat \<Rightarrow> Item list \<Rightarrow> string \<Rightarrow> string option" where
  "marshal_loop jm self [] buf = Some buf"
| "marshal_loop jm self (item # rest) buf =
     (case jm (VString (Key item)) of
        NoReturn \<Rightarrow> None
      | MarshalError \<Rightarrow> marshal_loop jm self rest buf
      | Bytes kEscaped \<Rightarrow>
          if Value item = VDict self then marshal_loop jm self rest buf
          else (case jm (Value item) of
                  NoReturn \<Rightarrow> None
                | Bytes vBytes \<Rightarrow>
                    marshal_loop jm self rest (buf @ kEscaped @ '':'' @ vBytes @ '','')
                | MarshalError \<Rightarrow>
                    marshal_loop jm self rest (buf @ kEscaped @ '':'' @ ''null,'')))"

text \<open>
  \<^verbatim>\<open>buf.Truncate(buf.Len() - 1)\<close> drops the last byte; the buffer starts with the
  opening brace, so the new length is never negative.
\<close>

definition MarshalJSON :: "(val \<Rightarrow> marshal_result) \<Rightarrow> nat \<Rightarrow> Dict \<Rightarrow> string option" where
  "MarshalJSON jm self d =
     (case marshal_loop jm self (Items d) ''{'' of
        None \<Rightarrow> None
      | Some buf \<Rightarrow>
          Some ((if length (items d) > 0 then take (length buf - 1) buf else buf) @ ''}''))"

section \<open>The decoder\<close>

text \<open>
  The numeric conversions of the Go library, for base 10 and 64 bits, as the decoder calls
  them. \<^verbatim>\<open>strconv.ParseUint\<close> reads the digits into an unsigned 64-bit word and returns
  the maximal value with a range error once the next digit would overflow; any other
  byte (a sign, a point, an exponent, a letter) is a syntax error. Both results of the
  Go function are kept: the value and the error, \<open>None\<close> standing for \<^verbatim>\<open>nil\<close>.
\<close>

datatype numerr = ErrSyntax | ErrRange

definition maxVal :: "64 word" where
  "maxVal = 18446744073709551615"

definition cutoff :: "64 word" where
  "cutoff = 1844674407370955162"

fun parse_uint_loop :: "string \<Rightarrow> 64 word \<Rightarrow> 64 word \<times> numerr option" where
  "parse_uint_loop [] n = (n, None)"
| "parse_uint_loop (c # cs) n =
     (if 48 \<le> (of_char c :: nat) \<and> (of_char c :: nat) \<le> 57 then
        (let d = (of_char c :: 64 word) - 48 in
         if n \<ge> cutoff then (maxVal, Some ErrRange)
         else (let n' = n * 10; n1 = n' + d in
               if n1 < n' \<or> n1 > maxVal then (maxVal, Some ErrRange)
               else parse_uint_loop cs n1))
      else (0, Some ErrSyntax))"

definition ParseUint :: "string \<Rightarrow> 64 word \<times> numerr option" where
  "ParseUint s = (if s = [] then (0, Some ErrSyntax) else parse_uint_loop s 0)"

text \<open>
  \<^verbatim>\<open>strconv.ParseInt\<close>: an optional sign, then \<^verbatim>\<open>ParseUint\<close>, then the range check
  against \<open>2^63\<close>. The \<^verbatim>\<open>int64\<close> result is a 64-bit word in two's complement.
\<close>

definition ParseInt :: "string \<Rightarrow> 64 word \<times> numerr option" where
  "ParseInt s =
     (if s = [] then (0, Some ErrSyntax)
      else (let neg = (hd s = CHR ''-'');
                s' = (if hd s = CHR ''+'' \<or> hd s = CHR ''-'' then tl s else s)
            in case ParseUint s' of
                 (un, err) \<Rightarrow>
                   if err \<noteq> None \<and> err \<noteq> Some ErrRange then (0, err)
                   else if \<not> neg \<and> un \<ge> 9223372036854775808
                     then (9223372036854775807, Some ErrRange)
                   else if neg \<and> un > 9223372036854775808
                     then (- 9223372036854775808, Some ErrRange)
                   else (if neg then - un else un, None)))"

text \<open>
  The token stream of \<^verbatim>\<open>json.Decoder\<close> with \<^verbatim>\<open>UseNumber\<close>: the tokens still to be
  delivered, and the error that \<^verbatim>\<open>Token\<close> reports once they are used up, \<^verbatim>\<open>io.EOF\<close> at
  the end of a well-formed input and a syntax error where the input is malformed.
  \<^verbatim>\<open>More\<close> is false at the end of the input and in front of a closing bracket or brace.
\<close>

datatype token = Delim char | TString string | Number string | TBool bool | TNull

datatype err =
    EOF
  | SyntaxError
  | ErrObjectOpen
  | ErrTrailing
  | ErrKeyNotString
  | ErrObjectClose
  | ErrArrayClose
  | ErrUnexpectedDelim
  | ErrUnexpectedToken

record Decoder =
  tokens :: "token list"
  at_end :: err

definition Token :: "Decoder \<Rightarrow> (err + token) \<times> Decoder" where
  "Token dec =
     (case tokens dec of
        [] \<Rightarrow> (Inl (at_end dec), dec)
      | t # ts \<Rightarrow> (Inr t, dec\<lparr>tokens := ts\<rparr>))"

definition More :: "Decoder \<Rightarrow> bool" where
  "More dec =
     (case tokens dec of
        [] \<Rightarrow> at_end dec \<noteq> EOF
      | t # ts \<Rightarrow> t \<noteq> Delim (CHR '']'') \<and> t \<noteq> Delim (CHR ''}''))"

text \<open>
  A call returns, panics (an index out of range in \<^verbatim>\<open>set\<close>), or exhausts the fuel that
  bounds the depth of the recursion in the model.
\<close>

datatype 'a outcome = Returns 'a | Panics | OutOfFuel

text \<open>The scalar cases of \<^verbatim>\<open>handledelim\<close>: a string, a number, and any other token.\<close>

definition handle_string :: "Lib \<Rightarrow> string \<Rightarrow> val" where
  "handle_string L t =
     (if length t \<ge> 20 \<and> t ! 10 = CHR ''T'' then
        (case time_Parse L t of Some parsed \<Rightarrow> VTime parsed | None \<Rightarrow> VString t)
      else VString t)"

definition handle_number :: "Lib \<Rightarrow> string \<Rightarrow> err + val" where
  "handle_number L value_str =
     (case ParseUint value_str of
        (value_uint, None) \<Rightarrow> Inr (VUint64 value_uint)
      | (_, Some _) \<Rightarrow>
          (case ParseInt value_str of
             (value_int, None) \<Rightarrow> Inr (VInt64 value_int)
           | (_, Some _) \<Rightarrow>
               (case ParseFloat L value_str of
                  Some float \<Rightarrow> Inr (VFloat64 float)
                | None \<Rightarrow> Inl ErrUnexpectedToken)))"

text \<open>The closing token of \<^verbatim>\<open>parseobject\<close> and of \<^verbatim>\<open>parsearray\<close>, read after the loop.\<close>

definition close_with :: "char \<Rightarrow> err \<Rightarrow> Decoder \<Rightarrow> err option \<times> Decoder" where
  "close_with c e dec =
     (case Token dec of
        (Inl er, dec') \<Rightarrow> (Some er, dec')
      | (Inr t, dec') \<Rightarrow> (if t = Delim c then (None, dec') else (Some e, dec')))"

text \<open>
  \<^verbatim>\<open>parseobject\<close>, \<^verbatim>\<open>parsearray\<close> and \<^verbatim>\<open>handledelim\<close>. The store under construction is
  passed and returned, also with an error: what was inserted before the error stays.
  A nested object is parsed into a new store, which is then placed in the heap (the list
  of allocated stores) and referred to by its address.
\<close>

fun parseobject ::
      "nat \<Rightarrow> Lib \<Rightarrow> Dict \<Rightarrow> Decoder \<Rightarrow> Dict list \<Rightarrow> (err option \<times> Dict \<times> Decoder \<times> Dict list) outcome"
  and parsearray ::
      "nat \<Rightarrow> Lib \<Rightarrow> val list \<Rightarrow> Decoder \<Rightarrow> Dict list \<Rightarrow> ((err + val list) \<times> Decoder \<times> Dict list) outcome"
  and handledelim ::
      "nat \<Rightarrow> Lib \<Rightarrow> token \<Rightarrow> Decoder \<Rightarrow> Dict list \<Rightarrow> ((err + val) \<times> Decoder \<times> Dict list) outcome"
where
  "parseobject 0 L self dec h = OutOfFuel"
| "parseobject (Suc n) L self dec h =
     (if More dec then
        (case Token dec of
           (Inl e, dec1) \<Rightarrow> Returns (Some e, self, dec1, h)
         | (Inr (TString key), dec1) \<Rightarrow>
             (case Token dec1 of
                (Inl e, dec2) \<Rightarrow>
                  (if e = EOF then
                     (case close_with (CHR ''}'') ErrObjectClose dec2 of
                        (r, dec3) \<Rightarrow> Returns (r, self, dec3, h))
                   else Returns (Some e, self, dec2, h))
              | (Inr t, dec2) \<Rightarrow>
                  (case handledelim n L t dec2 h of
                     Returns (Inl e, dec3, h3) \<Rightarrow> Returns (Some e, self, dec3, h3)
                   | Returns (Inr v, dec3, h3) \<Rightarrow>
                       (case set' L self key v of
                          None \<Rightarrow> Panics
                        | Some self' \<Rightarrow> parseobject n L self' dec3 h3)
                   | Panics \<Rightarrow> Panics
                   | OutOfFuel \<Rightarrow> OutOfFuel))
         | (Inr _, dec1) \<Rightarrow> Returns (Some ErrKeyNotString, self, dec1, h))
      else (case close_with (CHR ''}'') ErrObjectClose dec of
              (r, dec1) \<Rightarrow> Returns (r, self, dec1, h)))"
| "parsearray 0 L arr dec h = OutOfFuel"
| "parsearray (Suc n) L arr dec h =
     (if More dec then
        (case Token dec of
           (Inl e, dec1) \<Rightarrow> Returns (Inl e, dec1, h)
         | (Inr t, dec1) \<Rightarrow>
             (case handledelim n L t dec1 h of
                Returns (Inl e, dec2, h2) \<Rightarrow> Returns (Inl e, dec2, h2)
              | Returns (Inr v, dec2, h2) \<Rightarrow> parsearray n L (arr @ [v]) dec2 h2
              | Panics \<Rightarrow> Panics
              | OutOfFuel \<Rightarrow> OutOfFuel))
      else (case close_with (CHR '']'') ErrArrayClose dec of
              (None, dec1) \<Rightarrow> Returns (Inr arr, dec1, h)
            | (Some e, dec1) \<Rightarrow> Returns (Inl e, dec1, h)))"
| "handledelim 0 L t dec h = OutOfFuel"
| "handledelim (Suc n) L (Delim c) dec h =
     (if c = CHR ''{'' then
        (case parseobject n L NewDict dec h of
           Returns (Some e, dict2, dec1, h1) \<Rightarrow> Returns (Inl e, dec1, h1)
         | Returns (None, dict2, dec1, h1) \<Rightarrow>
             Returns (Inr (VDict (length h1)), dec1, h1 @ [dict2])
         | Panics \<Rightarrow> Panics
         | OutOfFuel \<Rightarrow> OutOfFuel)
      else if c = CHR ''['' then
        (case parsearray n L [] dec h of
           Returns (Inl e, dec1, h1) \<Rightarrow> Returns (Inl e, dec1, h1)
         | Returns (Inr arr, dec1, h1) \<Rightarrow> Returns (Inr (VArr arr), dec1, h1)
         | Panics \<Rightarrow> Panics
         | OutOfFuel \<Rightarrow> OutOfFuel)
      else Returns (Inl ErrUnexpectedDelim, dec, h))"
| "handledelim (Suc n) L (TString t) dec h = Returns (Inr (handle_string L t), dec, h)"
| "handledelim (Suc n) L (Number t) dec h = Returns (handle_number L t, dec, h)"
| "handledelim (Suc n) L (TBool b) dec h = Returns (Inr (VBool b), dec, h)"
| "handledelim (Suc n) L TNull dec h = Returns (Inr VNil, dec, h)"

definition UnmarshalJSON ::
  "nat \<Rightarrow> Lib \<Rightarrow> Dict \<Rightarrow> Decoder \<Rightarrow> Dict list \<Rightarrow> (err option \<times> Dict \<times> Decoder \<times> Dict list) outcome"
where
  "UnmarshalJSON n L self dec h =
     (case Token dec of
        (Inl e, dec1) \<Rightarrow> Returns (Some e, self, dec1, h)
      | (Inr t, dec1) \<Rightarrow>
          (if t \<noteq> Delim (CHR ''{'') then Returns (Some ErrObjectOpen, self, dec1, h)
           else (case parseobject n L self dec1 h of
                   Returns (Some e, self', dec2, h2) \<Rightarrow> Returns (Some e, self', dec2, h2)
                 | Returns (None, self', dec2, h2) \<Rightarrow>
                     (case Token dec2 of
                        (Inl e, dec3) \<Rightarrow>
                          (if e \<noteq> EOF then Returns (Some ErrTrailing, self', dec3, h2)
                           else Returns (None, self', dec3, h2))
                      | (Inr t', dec3) \<Rightarrow> Returns (Some ErrTrailing, self', dec3, h2))
                 | Panics \<Rightarrow> Panics
                 | OutOfFuel \<Rightarrow> OutOfFuel)))"

section \<open>Invariants of the store\<close>

text \<open>
  Two facts hold in every state that the operations produce, whatever the caller passes:
  every index entry points inside \<open>items\<close> at an entry whose key normalizes to the index
  key (\<open>points_back\<close>), and every entry that is not tombstoned is indexed at its own
  position (\<open>live_indexed\<close>).
\<close>

definition points_back :: "Lib \<Rightarrow> Dict \<Rightarrow> bool" where
  "points_back L self =
     fmpred (\<lambda>k i. i < length (items self) \<and> getKey L self (Key (items self ! i)) = k) (store self)"

definition live_indexed :: "Lib \<Rightarrow> Dict \<Rightarrow> bool" where
  "live_indexed L self =
     (\<forall>i < length (items self). \<not> IsDeleted (items self ! i) \<longrightarrow>
        fmlookup (store self) (getKey L self (Key (items self ! i))) = Some i)"

definition well_formed :: "Lib \<Rightarrow> Dict \<Rightarrow> bool" where
  "well_formed L self = (points_back L self \<and> live_indexed L self)"

definition index_live :: "Dict \<Rightarrow> bool" where
  "index_live self =
     fmpred (\<lambda>k i. i < length (items self) \<and> \<not> IsDeleted (items self ! i)) (store self)"

text \<open>
  The invariant of the specification: every index entry points at an entry with that
  normalized key which is not tombstoned, and there are as many live entries as index
  entries.
\<close>

definition index_ok :: "Lib \<Rightarrow> Dict \<Rightarrow> bool" where
  "index_ok L self =
     fmpred (\<lambda>k i. i < length (items self) \<and> getKey L self (Key (items self ! i)) = k
                  \<and> \<not> IsDeleted (items self ! i)) (store self)"

definition count_ok :: "Dict \<Rightarrow> bool" where
  "count_ok self = (length (Items self) = Len self)"

definition invariant :: "Lib \<Rightarrow> Dict \<Rightarrow> bool" where
  "invariant L self = (index_ok L self \<and> count_ok self)"

text \<open>The positions of the live entries, and the number of outstanding tombstones as
  \<^verbatim>\<open>maybeCompact\<close> counts them.\<close>

definition live_pos :: "Dict \<Rightarrow> nat set" where
  "live_pos d = {i. i < length (items d) \<and> \<not> IsDeleted (items d ! i)}"

definition tombstones :: "Dict \<Rightarrow> int" where
  "tombstones self = int (length (items self)) - int (fcard (fmdom (store self)))"

text \<open>The first step of \<^verbatim>\<open>set\<close>: the item list after the indexed entry, if there is one,
  has been marked.\<close>

definition marked :: "Dict \<Rightarrow> string \<Rightarrow> Item list option" where
  "marked d nk = (case fmlookup (store d) nk of
                      None \<Rightarrow> Some (items d)
                    | Some idx \<Rightarrow> set_value (items d) idx PtrDeleted)"

section \<open>Sequences of calls\<close>

text \<open>A caller's sequence of calls on one store, applied in order; a panic ends it.\<close>

datatype call = CallSet string val | CallUpdate string val | CallDelete string

fun do_call :: "Lib \<Rightarrow> Dict \<Rightarrow> call \<Rightarrow> Dict option" where
  "do_call L d (CallSet k v) = Set L d k v"
| "do_call L d (CallUpdate k v) = Update L d k v"
| "do_call L d (CallDelete k) = Delete L d k"

fun do_calls :: "Lib \<Rightarrow> Dict \<Rightarrow> call list \<Rightarrow> Dict option" where
  "do_calls L d [] = Some d"
| "do_calls L d (c # cs) = (case do_call L d c of None \<Rightarrow> None | Some d' \<Rightarrow> do_calls L d' cs)"

section \<open>What the encoder writes for one pair\<close>

text \<open>
  After the words of the specification: the escaped key, a colon, the encoded value or
  the null placeholder where the value fails to marshal, and a comma; nothing where the
  key fails to marshal.
\<close>

definition encode_pair :: "(val \<Rightarrow> marshal_result) \<Rightarrow> Item \<Rightarrow> string" where
  "encode_pair jm item =
     (case jm (VString (Key item)) of
        Bytes kEscaped \<Rightarrow>
          kEscaped @ '':'' @ (case jm (Value item) of Bytes vBytes \<Rightarrow> vBytes | _ \<Rightarrow> ''null'') @ '',''
      | _ \<Rightarrow> [])"

section \<open>Outcomes of the decoder that keep the invariant\<close>

text \<open>
  A call of the decoder is good when it does not panic and, if it returns, the store it
  worked on and every store it allocated satisfy the invariant; a decoded value is never
  the tombstone marker.
\<close>

definition good_obj :: "Lib \<Rightarrow> (err option \<times> Dict \<times> Decoder \<times> Dict list) outcome \<Rightarrow> bool" where
  "good_obj L r = (case r of Returns (e, d', dec', h') \<Rightarrow> invariant L d' \<and> list_all (invariant L) h'
                  | Panics \<Rightarrow> False | OutOfFuel \<Rightarrow> True)"

definition good_arr :: "Lib \<Rightarrow> ((err + val list) \<times> Decoder \<times> Dict list) outcome \<Rightarrow> bool" where
  "good_arr L r = (case r of Returns (e, dec', h') \<Rightarrow> list_all (invariant L) h'
                  | Panics \<Rightarrow> False | OutOfFuel \<Rightarrow> True)"

definition good_val :: "Lib \<Rightarrow> ((err + val) \<times> Decoder \<times> Dict list) outcome \<Rightarrow> bool" where
  "good_val L r = (case r of Returns (e, dec', h') \<Rightarrow> e \<noteq> Inr PtrDeleted \<and> list_all (invariant L) h'
                  | Panics \<Rightarrow> False | OutOfFuel \<Rightarrow> True)"

section \<open>Outcomes of the decoder within the fuel\<close>

text \<open>
  A call of the decoder stays within its fuel when it does not run out of it and, if it
  returns, leaves no more tokens than it found.
\<close>

definition obj_returns :: "Decoder \<Rightarrow> (err option \<times> Dict \<times> Decoder \<times> Dict list) outcome \<Rightarrow> bool" where
  "obj_returns dec r = (case r of Returns (e, d', dec', h') \<Rightarrow> length (tokens dec') \<le> length (tokens dec)
                         | Panics \<Rightarrow> True | OutOfFuel \<Rightarrow> False)"

definition val_returns :: "Decoder \<Rightarrow> ('a \<times> Decoder \<times> Dict list) outcome \<Rightarrow> bool" where
  "val_returns dec r = (case r of Returns (e, dec', h') \<Rightarrow> length (tokens dec') \<le> length (tokens dec)
                         | Panics \<Rightarrow> True | OutOfFuel \<Rightarrow> False)"

section \<open>Tombstoned entries\<close>

text \<open>The number of entries of the backing sequence for which \<^verbatim>\<open>IsDeleted\<close> holds.\<close>

definition tombstoned :: "Dict \<Rightarrow> nat" where
  "tombstoned self = length (filter IsDeleted (items self))"

section \<open>Objects of scalar values\<close>

text \<open>
  To speak of whole documents: the value that \<^verbatim>\<open>handledelim\<close> gives a token that is not a
  delimiter (none for a number that no parser accepts), the tokens of an object body
  whose pairs are given as keys with such tokens, the item that a pair becomes, and what
  one insertion does to the live items: the items with that normalized key go, the new
  item comes last.
\<close>

definition scalar_value :: "Lib \<Rightarrow> token \<Rightarrow> val option" where
  "scalar_value L t =
     (case t of
        Delim c \<Rightarrow> None
      | TString s \<Rightarrow> Some (handle_string L s)
      | Number s \<Rightarrow> (case handle_number L s of Inl e \<Rightarrow> None | Inr v \<Rightarrow> Some v)
      | TBool b \<Rightarrow> Some (VBool b)
      | TNull \<Rightarrow> Some VNil)"

fun flat_tokens :: "(string \<times> token) list \<Rightarrow> token list" where
  "flat_tokens [] = []"
| "flat_tokens ((k, t) # kts) = TString k # t # flat_tokens kts"

definition pair_item :: "Lib \<Rightarrow> string \<times> token \<Rightarrow> Item" where
  "pair_item L kt = \<lparr>Key = fst kt, Value = (case scalar_value L (snd kt) of Some v \<Rightarrow> v | None \<Rightarrow> VNil)\<rparr>"

definition moved_to_end :: "Lib \<Rightarrow> Dict \<Rightarrow> Item \<Rightarrow> Item list \<Rightarrow> Item list" where
  "moved_to_end L d x xs = filter (\<lambda>y. getKey L d (Key y) \<noteq> getKey L d (Key x)) xs @ [x]"

section \<open>Properties of the store operations\<close>

lemma ascii_lower_byte_idem: "ascii_lower_byte (ascii_lower_byte c) = ascii_lower_byte c"
  by (auto simp: ascii_lower_byte_def of_char_of)

lemma ascii_lower_idem: "ascii_lower (ascii_lower s) = ascii_lower s"
  by (simp add: ascii_lower_def ascii_lower_byte_idem)

lemma lower_idempotent_ascii: "strings_ToLower L = ascii_lower \<Longrightarrow> lower_idempotent L"
  by (simp add: lower_idempotent_def ascii_lower_idem)

lemma getKey_idem: "lower_idempotent L \<Longrightarrow> getKey L d (getKey L d k) = getKey L d k"
  by (simp add: getKey_def lower_idempotent_def)

lemma index_ok_iff: "index_ok L d \<longleftrightarrow> points_back L d \<and> index_live d"
  by (auto simp: index_ok_def points_back_def index_live_def fmpred_iff)

lemma length_Items: "length (Items d) = card (live_pos d)"
  by (simp add: Items_def live_pos_def length_filter_conv_card)

lemma Len_card: "Len d = card (fset (fmdom (store d)))"
  by (simp add: Len_def fcard.rep_eq)

lemma idx_inj:
  assumes "points_back L d"
  shows "inj_on (\<lambda>k. the (fmlookup (store d) k)) (fset (fmdom (store d)))"
proof (rule inj_onI)
  fix k k' assume k: "k \<in> fset (fmdom (store d))" and k': "k' \<in> fset (fmdom (store d))"
    and eq: "the (fmlookup (store d) k) = the (fmlookup (store d) k')"
  from k obtain i where i: "fmlookup (store d) k = Some i" by (auto simp: fmlookup_dom_iff)
  from k' obtain j where j: "fmlookup (store d) k' = Some j" by (auto simp: fmlookup_dom_iff)
  from eq i j have "i = j" by simp
  with assms i j show "k = k'" by (auto simp: points_back_def fmpred_iff)
qed

lemma idx_image_sub:
  assumes "index_live d"
  shows "(\<lambda>k. the (fmlookup (store d) k)) ` fset (fmdom (store d)) \<subseteq> live_pos d"
  using assms by (auto simp: index_live_def fmpred_iff live_pos_def fmlookup_dom_iff)

lemma idx_image_sup:
  assumes "live_indexed L d"
  shows "live_pos d \<subseteq> (\<lambda>k. the (fmlookup (store d) k)) ` fset (fmdom (store d))"
proof
  fix i assume "i \<in> live_pos d"
  then have "fmlookup (store d) (getKey L d (Key (items d ! i))) = Some i"
    using assms by (auto simp: live_pos_def live_indexed_def)
  then show "i \<in> (\<lambda>k. the (fmlookup (store d) k)) ` fset (fmdom (store d))"
    by (force simp: fmlookup_dom_iff image_iff intro: fmdomI)
qed

lemma well_formed_count:
  assumes "well_formed L d" "index_live d"
  shows "count_ok d"
proof -
  let ?f = "\<lambda>k. the (fmlookup (store d) k)"
  from assms(1) have li: "live_indexed L d" by (simp add: well_formed_def)
  have "?f ` fset (fmdom (store d)) = live_pos d"
    by (rule equalityI [OF idx_image_sub[OF assms(2)] idx_image_sup[OF li]])
  then have "card (live_pos d) = card (fset (fmdom (store d)))"
    using card_image[OF idx_inj[of L d]] assms(1) by (simp add: well_formed_def)
  then show ?thesis by (simp add: count_ok_def length_Items Len_card)
qed

lemma invariant_live_indexed:
  assumes "invariant L d"
  shows "live_indexed L d"
proof -
  let ?f = "\<lambda>k. the (fmlookup (store d) k)"
  let ?D = "fset (fmdom (store d))"
  from assms have pb: "points_back L d" and il: "index_live d" and c: "count_ok d"
    by (auto simp: invariant_def index_ok_iff)
  have fin: "finite (live_pos d)" by (simp add: live_pos_def)
  have "card (?f ` ?D) = card ?D" using card_image[OF idx_inj[OF pb]] .
  also have "\<dots> = card (live_pos d)" using c by (simp add: count_ok_def length_Items Len_card)
  finally have "?f ` ?D = live_pos d"
    using idx_image_sub[OF il] fin by (simp add: card_subset_eq)
  show ?thesis unfolding live_indexed_def
  proof (intro allI impI)
    fix i assume "i < length (items d)" "\<not> IsDeleted (items d ! i)"
    then have "i \<in> ?f ` ?D" using \<open>?f ` ?D = live_pos d\<close> by (simp add: live_pos_def)
    then obtain k where k: "k \<in> ?D" "i = ?f k" by auto
    then have "fmlookup (store d) k = Some i" by (auto simp: fmlookup_dom_iff)
    moreover from this pb have "getKey L d (Key (items d ! i)) = k"
      by (auto simp: points_back_def fmpred_iff)
    ultimately show "fmlookup (store d) (getKey L d (Key (items d ! i))) = Some i" by simp
  qed
qed

lemma invariant_iff: "invariant L d \<longleftrightarrow> well_formed L d \<and> index_live d"
  using invariant_live_indexed well_formed_count by (auto simp: invariant_def index_ok_iff well_formed_def)


lemma getKey_upd [simp]:
  "getKey L (d\<lparr>store := s\<rparr>) k = getKey L d k"
  "getKey L (d\<lparr>items := xs\<rparr>) k = getKey L d k"
  by (simp_all add: getKey_def)

lemma Item_eta [simp]: "\<lparr>Key = Key (x::Item), Value = Value x\<rparr> = x"
  by simp

lemma Key_nth_update [simp]:
  "Key (xs[idx := (xs ! idx)\<lparr>Value := v\<rparr>] ! i) = Key (xs ! i)"
proof (cases "i = idx")
  case True
  then show ?thesis by (cases "idx < length xs") (simp_all add: list_update_beyond)
next
  case False
  then show ?thesis by simp
qed

lemma set_value_SomeD:
  assumes "set_value xs idx v = Some ys"
  shows "idx < length xs" "length ys = length xs"
    "\<And>i. i < length xs \<Longrightarrow> Key (ys ! i) = Key (xs ! i)"
    "\<And>i. i < length xs \<Longrightarrow> i \<noteq> idx \<Longrightarrow> ys ! i = xs ! i"
    "Value (ys ! idx) = v"
  using assms by (auto simp: set_value_def nth_list_update split: if_splits)

lemma compact_loop_spec:
  assumes "fmpred (\<lambda>k i. i < length ni \<and> getKey L d (Key (ni ! i)) = k) ns"
    and "\<forall>i<length ni. fmlookup ns (getKey L d (Key (ni ! i))) = Some i"
    and "distinct (map (\<lambda>x. getKey L d (Key x)) (ni @ filter (\<lambda>x. \<not> IsDeleted x) xs))"
    and "compact_loop L d xs ns ni = (ns', ni')"
  shows "fmpred (\<lambda>k i. i < length ni' \<and> getKey L d (Key (ni' ! i)) = k) ns'
       \<and> (\<forall>i<length ni'. fmlookup ns' (getKey L d (Key (ni' ! i))) = Some i)
       \<and> ni' = ni @ filter (\<lambda>x. \<not> IsDeleted x) xs"
  using assms
proof (induction xs arbitrary: ns ni)
  case Nil
  then show ?case by simp
next
  case (Cons x xs)
  show ?case
  proof (cases "IsDeleted x")
    case True
    with Cons.prems have c: "compact_loop L d xs ns ni = (ns', ni')"
      and dd: "distinct (map (\<lambda>x. getKey L d (Key x)) (ni @ filter (\<lambda>x. \<not> IsDeleted x) xs))"
      by simp_all
    have f: "filter (\<lambda>x. \<not> IsDeleted x) (x # xs) = filter (\<lambda>x. \<not> IsDeleted x) xs"
      using True by simp
    show ?thesis unfolding f
      by (rule Cons.IH[OF Cons.prems(1,2) dd c])
  next
    case False
    let ?ns = "fmupd (getKey L d (Key x)) (length ni) ns"
    let ?ni = "ni @ [x]"
    have 1: "fmpred (\<lambda>k i. i < length ?ni \<and> getKey L d (Key (?ni ! i)) = k) ?ns"
      using Cons.prems(1) by (fastforce simp: fmpred_iff nth_append split: if_splits)
    have fresh: "getKey L d (Key x) \<notin> (\<lambda>x. getKey L d (Key x)) ` set ni"
      using Cons.prems(3) False by auto
    have 2: "\<forall>i<length ?ni. fmlookup ?ns (getKey L d (Key (?ni ! i))) = Some i"
    proof (intro allI impI)
      fix i assume "i < length ?ni"
      show "fmlookup ?ns (getKey L d (Key (?ni ! i))) = Some i"
      proof (cases "i < length ni")
        case True
        then have "getKey L d (Key (ni ! i)) \<noteq> getKey L d (Key x)"
          using fresh by (metis image_eqI nth_mem)
        with True Cons.prems(2) show ?thesis by (simp add: nth_append)
      next
        case False
        with \<open>i < length ?ni\<close> have "i = length ni" by simp
        then show ?thesis by simp
      qed
    qed
    have 3: "distinct (map (\<lambda>x. getKey L d (Key x)) (?ni @ filter (\<lambda>x. \<not> IsDeleted x) xs))"
      using Cons.prems(3) False by simp
    have 4: "compact_loop L d xs ?ns ?ni = (ns', ni')"
      using Cons.prems(4) False by simp
    have g: "ni @ filter (\<lambda>x. \<not> IsDeleted x) (x # xs) = ?ni @ filter (\<lambda>x. \<not> IsDeleted x) xs"
      using False by simp
    show ?thesis unfolding g by (rule Cons.IH[OF 1 2 3 4])
  qed
qed

lemma live_distinct_aux:
  "(\<forall>i<length xs. P (xs ! i) \<longrightarrow> g (f (xs ! i)) = Some i) \<Longrightarrow> distinct (map f (filter P xs))"
proof (induction xs rule: rev_induct)
  case Nil
  then show ?case by simp
next
  case (snoc x xs)
  have IH: "distinct (map f (filter P xs))"
  proof (rule snoc.IH, intro allI impI)
    fix i assume "i < length xs" "P (xs ! i)"
    with snoc.prems[rule_format, of i] show "g (f (xs ! i)) = Some i"
      by (simp add: nth_append)
  qed
  show ?case
  proof (cases "P x")
    case False
    with IH show ?thesis by simp
  next
    case True
    have "f x \<notin> f ` set (filter P xs)"
    proof
      assume "f x \<in> f ` set (filter P xs)"
      then obtain y where y: "y \<in> set xs" "P y" "f y = f x" by auto
      then obtain i where i: "i < length xs" "xs ! i = y" by (auto simp: in_set_conv_nth)
      with snoc.prems[rule_format, of i] y have "g (f x) = Some i" by (simp add: nth_append)
      moreover from snoc.prems[rule_format, of "length xs"] True
      have "g (f x) = Some (length xs)" by simp
      ultimately show False using i by simp
    qed
    with IH True show ?thesis by simp
  qed
qed

lemma live_distinct:
  assumes "live_indexed L d"
  shows "distinct (map (\<lambda>x. getKey L d (Key x)) (filter (\<lambda>x. \<not> IsDeleted x) (items d)))"
  using assms unfolding live_indexed_def
  by (intro live_distinct_aux[where g = "fmlookup (store d)"]) simp

lemma compacted_invariant:
  assumes "live_indexed L d" "compact_loop L d (items d) fmempty [] = (ns, ni)"
  shows "invariant L (d\<lparr>store := ns, items := ni\<rparr>)" "ni = filter (\<lambda>x. \<not> IsDeleted x) (items d)"
proof -
  have *: "fmpred (\<lambda>k i. i < length ni \<and> getKey L d (Key (ni ! i)) = k) ns
       \<and> (\<forall>i<length ni. fmlookup ns (getKey L d (Key (ni ! i))) = Some i)
       \<and> ni = [] @ filter (\<lambda>x. \<not> IsDeleted x) (items d)"
    by (rule compact_loop_spec[OF _ _ _ assms(2)]) (use live_distinct[OF assms(1)] in simp_all)
  then show ni: "ni = filter (\<lambda>x. \<not> IsDeleted x) (items d)" by simp
  have live: "\<And>i. i < length ni \<Longrightarrow> \<not> IsDeleted (ni ! i)"
    using ni nth_mem by fastforce
  show "invariant L (d\<lparr>store := ns, items := ni\<rparr>)"
    unfolding invariant_iff well_formed_def points_back_def live_indexed_def index_live_def
    using * live by (auto simp: fmpred_iff)
qed

lemma maybeCompact_cases:
  obtains (keep) "int (length (items d)) - int (fcard (fmdom (store d))) < 10" "maybeCompact L d = d"
  | (compact) ns ni where "\<not> int (length (items d)) - int (fcard (fmdom (store d))) < 10"
      "compact_loop L d (items d) fmempty [] = (ns, ni)" "maybeCompact L d = d\<lparr>store := ns, items := ni\<rparr>"
  by (cases "compact_loop L d (items d) fmempty []") (auto simp: maybeCompact_def)

lemma well_formed_maybeCompact: "well_formed L d \<Longrightarrow> well_formed L (maybeCompact L d)"
  by (cases rule: maybeCompact_cases[where L = L and d = d]) (auto simp: well_formed_def dest: compacted_invariant(1) simp: invariant_iff)

lemma invariant_maybeCompact: "invariant L d \<Longrightarrow> invariant L (maybeCompact L d)"
  by (cases rule: maybeCompact_cases[where L = L and d = d]) (auto dest: compacted_invariant(1) simp: invariant_iff well_formed_def)


lemma compact_loop_items:
  "snd (compact_loop L d xs ns ni) = ni @ filter (\<lambda>x. \<not> IsDeleted x) xs"
  by (induction xs arbitrary: ns ni) simp_all

lemma Items_maybeCompact [simp]: "Items (maybeCompact L d) = Items d"
proof (cases rule: maybeCompact_cases[where L = L and d = d])
  case keep
  then show ?thesis by simp
next
  case (compact ns ni)
  from compact(2) compact_loop_items[of L d "items d" fmempty "[]"]
  have "ni = filter (\<lambda>x. \<not> IsDeleted x) (items d)" by simp
  with compact(3) show ?thesis by (simp add: Items_def)
qed

lemma Keys_Items: "Keys d = map Key (Items d)"
  by (simp add: Keys_def Items_def)

lemma Values_Items: "Values d = map Value (Items d)"
  by (simp add: Values_def Items_def)

lemma case_insensitive_maybeCompact [simp]:
  "case_insensitive (maybeCompact L d) = case_insensitive d"
  "default_value (maybeCompact L d) = default_value d"
  by (cases rule: maybeCompact_cases[where L = L and d = d]; simp)+

lemma getKey_maybeCompact [simp]: "getKey L (maybeCompact L d) k = getKey L d k"
  by (simp add: getKey_def)

lemma marked_Some:
  assumes "points_back L d"
  obtains xs where "marked d nk = Some xs" "length xs = length (items d)"
    "\<And>i. i < length xs \<Longrightarrow> Key (xs ! i) = Key (items d ! i)"
    "\<And>i. i < length xs \<Longrightarrow> \<not> IsDeleted (xs ! i) \<Longrightarrow>
        xs ! i = items d ! i \<and> fmlookup (store d) nk \<noteq> Some i"
    "\<And>i. i < length xs \<Longrightarrow> getKey L d (Key (items d ! i)) \<noteq> nk \<Longrightarrow> xs ! i = items d ! i"
proof (cases "fmlookup (store d) nk")
  case None
  show ?thesis by (rule that[of "items d"]) (simp_all add: marked_def None)
next
  case (Some idx)
  with assms have idx: "idx < length (items d)" "getKey L d (Key (items d ! idx)) = nk"
    by (auto simp: points_back_def fmpred_iff)
  let ?xs = "(items d)[idx := (items d ! idx)\<lparr>Value := PtrDeleted\<rparr>]"
  show ?thesis
  proof (rule that[of ?xs])
    show "marked d nk = Some ?xs" using idx Some by (simp add: marked_def set_value_def)
  next
    fix i assume a: "i < length ?xs" "\<not> IsDeleted (?xs ! i)"
    have "i \<noteq> idx" using a idx(1) by (auto simp: IsDeleted_def)
    then show "?xs ! i = items d ! i \<and> fmlookup (store d) nk \<noteq> Some i"
      using Some by simp
  qed (use idx in \<open>auto simp: nth_list_update\<close>)
qed

lemma well_formed_append:
  assumes w: "well_formed L d"
    and len: "length xs = length (items d)"
    and keys: "\<And>i. i < length xs \<Longrightarrow> Key (xs ! i) = Key (items d ! i)"
    and live: "\<And>i. i < length xs \<Longrightarrow> \<not> IsDeleted (xs ! i) \<Longrightarrow>
        xs ! i = items d ! i \<and> fmlookup (store d) (getKey L d key) \<noteq> Some i"
  shows "well_formed L (d\<lparr>store := fmupd (getKey L d key) (length xs) (store d),
               items := xs @ [\<lparr>Key = key, Value = v\<rparr>]\<rparr>)"
proof -
  let ?nk = "getKey L d key"
  from w have pb: "\<And>k i. fmlookup (store d) k = Some i \<Longrightarrow>
      i < length (items d) \<and> getKey L d (Key (items d ! i)) = k"
    and li: "\<And>i. i < length (items d) \<Longrightarrow> \<not> IsDeleted (items d ! i) \<Longrightarrow>
      fmlookup (store d) (getKey L d (Key (items d ! i))) = Some i"
    by (auto simp: well_formed_def points_back_def live_indexed_def fmpred_iff)
  have 1: "points_back L (d\<lparr>store := fmupd ?nk (length xs) (store d),
               items := xs @ [\<lparr>Key = key, Value = v\<rparr>]\<rparr>)"
    unfolding points_back_def fmpred_iff
  proof (intro allI impI)
    fix k i
    assume "fmlookup (store (d\<lparr>store := fmupd ?nk (length xs) (store d),
               items := xs @ [\<lparr>Key = key, Value = v\<rparr>]\<rparr>)) k = Some i"
    then consider "k = ?nk" "i = length xs" | "k \<noteq> ?nk" "fmlookup (store d) k = Some i"
      by (auto split: if_splits)
    then show "i < length (items (d\<lparr>store := fmupd ?nk (length xs) (store d),
               items := xs @ [\<lparr>Key = key, Value = v\<rparr>]\<rparr>)) \<and>
       getKey L (d\<lparr>store := fmupd ?nk (length xs) (store d),
               items := xs @ [\<lparr>Key = key, Value = v\<rparr>]\<rparr>)
         (Key (items (d\<lparr>store := fmupd ?nk (length xs) (store d),
               items := xs @ [\<lparr>Key = key, Value = v\<rparr>]\<rparr>) ! i)) = k"
    proof cases
      case 1
      then show ?thesis by simp
    next
      case 2
      from pb[OF 2(2)] len keys[of i] show ?thesis by (simp add: nth_append)
    qed
  qed
  have 2: "live_indexed L (d\<lparr>store := fmupd ?nk (length xs) (store d),
               items := xs @ [\<lparr>Key = key, Value = v\<rparr>]\<rparr>)"
    unfolding live_indexed_def
  proof (intro allI impI)
    fix i
    let ?d = "d\<lparr>store := fmupd ?nk (length xs) (store d),
               items := xs @ [\<lparr>Key = key, Value = v\<rparr>]\<rparr>"
    assume i: "i < length (items ?d)" and l: "\<not> IsDeleted (items ?d ! i)"
    show "fmlookup (store ?d) (getKey L ?d (Key (items ?d ! i))) = Some i"
    proof (cases "i < length xs")
      case True
      with l have l': "\<not> IsDeleted (xs ! i)" by (simp add: nth_append)
      from live[OF True l'] have e: "xs ! i = items d ! i" and n: "fmlookup (store d) ?nk \<noteq> Some i"
        by simp_all
      from li[of i] True len l' e
      have s: "fmlookup (store d) (getKey L d (Key (items d ! i))) = Some i" by simp
      with n have "getKey L d (Key (items d ! i)) \<noteq> ?nk" by auto
      with s True e show ?thesis by (simp add: nth_append)
    next
      case False
      with i have "i = length xs" by simp
      then show ?thesis by simp
    qed
  qed
  from 1 2 show ?thesis by (simp add: well_formed_def)
qed

lemma index_live_append:
  assumes pb: "points_back L d" and il: "index_live d"
    and len: "length xs = length (items d)"
    and keep: "\<And>i. i < length xs \<Longrightarrow> getKey L d (Key (items d ! i)) \<noteq> getKey L d key \<Longrightarrow> xs ! i = items d ! i"
    and v: "v \<noteq> PtrDeleted"
  shows "index_live (d\<lparr>store := fmupd (getKey L d key) (length xs) (store d),
               items := xs @ [\<lparr>Key = key, Value = v\<rparr>]\<rparr>)"
  unfolding index_live_def fmpred_iff
proof (intro allI impI)
  fix k i
  let ?d = "d\<lparr>store := fmupd (getKey L d key) (length xs) (store d),
               items := xs @ [\<lparr>Key = key, Value = v\<rparr>]\<rparr>"
  assume "fmlookup (store ?d) k = Some i"
  then consider "k = getKey L d key" "i = length xs" | "k \<noteq> getKey L d key" "fmlookup (store d) k = Some i"
    by (auto split: if_splits)
  then show "i < length (items ?d) \<and> \<not> IsDeleted (items ?d ! i)"
  proof cases
    case 1
    with v show ?thesis by (simp add: IsDeleted_def)
  next
    case 2
    from pb 2(2) have a: "i < length (items d)" "getKey L d (Key (items d ! i)) = k"
      by (auto simp: points_back_def fmpred_iff)
    from il 2(2) have b: "\<not> IsDeleted (items d ! i)"
      by (auto simp: index_live_def fmpred_iff)
    from keep[of i] a 2(1) len have "xs ! i = items d ! i" by simp
    with a b len show ?thesis by (simp add: nth_append)
  qed
qed

lemma set'_alt:
  "set' L d key v = (case marked d (getKey L d key) of None \<Rightarrow> None
     | Some xs \<Rightarrow> Some (maybeCompact L (d\<lparr>store := fmupd (getKey L d key) (length xs) (store d),
                     items := xs @ [\<lparr>Key = key, Value = v\<rparr>]\<rparr>)))"
  by (simp add: set'_def marked_def Let_def)

lemma well_formed_set':
  assumes "well_formed L d"
  obtains d' where "set' L d key v = Some d'" "well_formed L d'"
proof -
  from assms have pb: "points_back L d" by (simp add: well_formed_def)
  obtain xs where xs: "marked d (getKey L d key) = Some xs" "length xs = length (items d)"
    "\<And>i. i < length xs \<Longrightarrow> Key (xs ! i) = Key (items d ! i)"
    "\<And>i. i < length xs \<Longrightarrow> \<not> IsDeleted (xs ! i) \<Longrightarrow>
        xs ! i = items d ! i \<and> fmlookup (store d) (getKey L d key) \<noteq> Some i"
    by (rule marked_Some[OF pb, of "getKey L d key"]) blast
  from well_formed_append[OF assms xs(2,3,4), of v]
  have "well_formed L (maybeCompact L (d\<lparr>store := fmupd (getKey L d key) (length xs) (store d),
                     items := xs @ [\<lparr>Key = key, Value = v\<rparr>]\<rparr>))"
    by (rule well_formed_maybeCompact)
  with xs(1) show ?thesis by (intro that) (simp_all add: set'_alt)
qed

lemma invariant_set':
  assumes "invariant L d" "v \<noteq> PtrDeleted"
  obtains d' where "set' L d key v = Some d'" "invariant L d'"
proof -
  from assms have w: "well_formed L d" and pb: "points_back L d" and il: "index_live d"
    by (simp_all add: invariant_iff well_formed_def)
  obtain xs where xs: "marked d (getKey L d key) = Some xs" "length xs = length (items d)"
    "\<And>i. i < length xs \<Longrightarrow> Key (xs ! i) = Key (items d ! i)"
    "\<And>i. i < length xs \<Longrightarrow> \<not> IsDeleted (xs ! i) \<Longrightarrow>
        xs ! i = items d ! i \<and> fmlookup (store d) (getKey L d key) \<noteq> Some i"
    "\<And>i. i < length xs \<Longrightarrow> getKey L d (Key (items d ! i)) \<noteq> getKey L d key \<Longrightarrow> xs ! i = items d ! i"
    by (rule marked_Some[OF pb, of "getKey L d key"]) blast
  let ?d = "d\<lparr>store := fmupd (getKey L d key) (length xs) (store d),
                     items := xs @ [\<lparr>Key = key, Value = v\<rparr>]\<rparr>"
  have "invariant L ?d"
    using well_formed_append[OF w xs(2,3,4), of v] index_live_append[OF pb il xs(2) xs(5) assms(2)]
    by (simp add: invariant_iff)
  then have "invariant L (maybeCompact L ?d)" by (rule invariant_maybeCompact)
  with xs(1) show ?thesis by (intro that) (simp_all add: set'_alt)
qed


lemma filter_nth_eq:
  assumes "length xs = length ys"
    and "\<And>i. i < length xs \<Longrightarrow> P (xs ! i) \<longleftrightarrow> Q (ys ! i)"
    and "\<And>i. i < length xs \<Longrightarrow> P (xs ! i) \<Longrightarrow> xs ! i = ys ! i"
  shows "filter P xs = filter Q ys"
  using assms
proof (induction xs ys rule: list_induct2)
  case Nil
  then show ?case by simp
next
  case (Cons x xs y ys)
  have t: "filter P xs = filter Q ys"
  proof (rule Cons.IH)
    fix i assume "i < length xs"
    then show "P (xs ! i) \<longleftrightarrow> Q (ys ! i)" using Cons.prems(1)[of "Suc i"] by simp
  next
    fix i assume "i < length xs" "P (xs ! i)"
    then show "xs ! i = ys ! i" using Cons.prems(2)[of "Suc i"] by simp
  qed
  from Cons.prems(1)[of 0] Cons.prems(2)[of 0] have "P x \<longleftrightarrow> Q y" "P x \<Longrightarrow> x = y" by simp_all
  with t show ?case by auto
qed

lemma Items_set':
  assumes "well_formed L d" "set' L d key v = Some d'"
  shows "Items d' = filter (\<lambda>x. getKey L d (Key x) \<noteq> getKey L d key) (Items d)
                    @ (if v = PtrDeleted then [] else [\<lparr>Key = key, Value = v\<rparr>])"
proof -
  let ?nk = "getKey L d key"
  from assms have pb: "points_back L d" and li: "live_indexed L d" by (simp_all add: well_formed_def)
  obtain xs where xs: "marked d ?nk = Some xs" "length xs = length (items d)"
    "\<And>i. i < length xs \<Longrightarrow> \<not> IsDeleted (xs ! i) \<Longrightarrow>
        xs ! i = items d ! i \<and> fmlookup (store d) ?nk \<noteq> Some i"
    "\<And>i. i < length xs \<Longrightarrow> getKey L d (Key (items d ! i)) \<noteq> ?nk \<Longrightarrow> xs ! i = items d ! i"
    by (rule marked_Some[OF pb, of ?nk]) blast
  have f: "filter (\<lambda>x. \<not> IsDeleted x) xs
         = filter (\<lambda>x. \<not> IsDeleted x \<and> getKey L d (Key x) \<noteq> ?nk) (items d)"
  proof (rule filter_nth_eq[OF xs(2)])
    fix i assume i: "i < length xs"
    show "(\<not> IsDeleted (xs ! i)) = (\<not> IsDeleted (items d ! i) \<and> getKey L d (Key (items d ! i)) \<noteq> ?nk)"
    proof
      assume l: "\<not> IsDeleted (xs ! i)"
      from xs(3)[OF i l] have e: "xs ! i = items d ! i" and n: "fmlookup (store d) ?nk \<noteq> Some i"
        by simp_all
      from li i xs(2) l e have "fmlookup (store d) (getKey L d (Key (items d ! i))) = Some i"
        by (simp add: live_indexed_def)
      with n e l show "\<not> IsDeleted (items d ! i) \<and> getKey L d (Key (items d ! i)) \<noteq> ?nk" by auto
    next
      assume "\<not> IsDeleted (items d ! i) \<and> getKey L d (Key (items d ! i)) \<noteq> ?nk"
      with xs(4)[OF i] show "\<not> IsDeleted (xs ! i)" by simp
    qed
  next
    fix i assume "i < length xs" "\<not> IsDeleted (xs ! i)"
    then show "xs ! i = items d ! i" using xs(3) by simp
  qed
  from assms(2) xs(1)
  have "d' = maybeCompact L (d\<lparr>store := fmupd ?nk (length xs) (store d),
                     items := xs @ [\<lparr>Key = key, Value = v\<rparr>]\<rparr>)"
    by (simp add: set'_alt)
  then have "Items d' = filter (\<lambda>x. \<not> IsDeleted x) (xs @ [\<lparr>Key = key, Value = v\<rparr>])"
    by (simp add: Items_def[where self = "d\<lparr>store := _, items := _\<rparr>"])
  also have "\<dots> = filter (\<lambda>x. \<not> IsDeleted x) xs @ (if v = PtrDeleted then [] else [\<lparr>Key = key, Value = v\<rparr>])"
    by (simp add: IsDeleted_def)
  finally show ?thesis unfolding f by (simp add: Items_def conj_commute)
qed

lemma items_maybeCompact_last:
  assumes "\<not> IsDeleted x"
  shows "items (maybeCompact L (d\<lparr>store := s, items := xs @ [x]\<rparr>)) \<noteq> [] \<and>
         last (items (maybeCompact L (d\<lparr>store := s, items := xs @ [x]\<rparr>))) = x"
proof (cases rule: maybeCompact_cases[where L = L and d = "d\<lparr>store := s, items := xs @ [x]\<rparr>"])
  case keep
  then show ?thesis by simp
next
  case (compact ns ni)
  from compact(2) compact_loop_items[of L "d\<lparr>store := s, items := xs @ [x]\<rparr>" "xs @ [x]" fmempty "[]"]
  have "ni = filter (\<lambda>x. \<not> IsDeleted x) xs @ [x]" using assms by simp
  with compact(3) show ?thesis by simp
qed

lemma store_set':
  assumes "well_formed L d" "v \<noteq> PtrDeleted" "set' L d key v = Some d'"
  shows "\<exists>i. fmlookup (store d') (getKey L d key) = Some i \<and> i < length (items d')
           \<and> items d' ! i = \<lparr>Key = key, Value = v\<rparr>"
proof -
  let ?x = "\<lparr>Key = key, Value = v\<rparr>"
  from well_formed_set'[OF assms(1), of key v] assms(3) have wf': "well_formed L d'" by auto
  from assms(1) have pb: "points_back L d" by (simp add: well_formed_def)
  obtain xs where xs: "marked d (getKey L d key) = Some xs"
    by (rule marked_Some[OF pb, of "getKey L d key"]) blast
  with assms(3) have d': "d' = maybeCompact L (d\<lparr>store := fmupd (getKey L d key) (length xs) (store d),
                     items := xs @ [?x]\<rparr>)"
    by (simp add: set'_alt)
  have "\<not> IsDeleted ?x" using assms(2) by (simp add: IsDeleted_def)
  from items_maybeCompact_last[OF this, where d = d and xs = xs] d'
  have ne: "items d' \<noteq> []" and la: "last (items d') = ?x" by simp_all
  let ?i = "length (items d') - 1"
  from ne la have i: "?i < length (items d')" "items d' ! ?i = ?x"
    by (simp_all add: last_conv_nth)
  with wf' assms(2) have "fmlookup (store d') (getKey L d' (Key ?x)) = Some ?i"
    by (auto simp: well_formed_def live_indexed_def IsDeleted_def)
  moreover have "getKey L d' k = getKey L d k" for k using d' by simp
  ultimately show ?thesis using i by auto
qed

lemma Get_set':
  assumes "well_formed L d" "v \<noteq> PtrDeleted" "set' L d key v = Some d'" "getKey L d k = getKey L d key"
  shows "Get L d' k = Some (v, True)"
proof -
  from assms(1) have pb: "points_back L d" by (simp add: well_formed_def)
  obtain xs where xs: "marked d (getKey L d key) = Some xs"
    by (rule marked_Some[OF pb, of "getKey L d key"]) blast
  with assms(3) have "getKey L d' k = getKey L d k" by (auto simp: set'_alt)
  with store_set'[OF assms(1-3)] assms(4) show ?thesis by (auto simp: Get_def)
qed

subsection \<open>Delete preserves the invariants\<close>

lemma Delete_Some:
  assumes "points_back L d" "fmlookup (store d) (getKey L d k) = Some idx"
  shows "Delete L d k = Some (d\<lparr>store := fmdrop k (store d),
            items := (items d)[idx := (items d ! idx)\<lparr>Value := PtrDeleted\<rparr>]\<rparr>)"
    "idx < length (items d)" "getKey L d (Key (items d ! idx)) = getKey L d k"
  using assms by (auto simp: Delete_def set_value_def points_back_def fmpred_iff)

lemma well_formed_Delete:
  assumes "well_formed L d" and norm: "lower_idempotent L \<or> getKey L d k = k"
  obtains d' where "Delete L d k = Some d'" "well_formed L d'"
proof (cases "fmlookup (store d) (getKey L d k)")
  case None
  with assms(1) show ?thesis by (intro that[of d]) (simp_all add: Delete_def)
next
  case (Some idx)
  from assms(1) have pb: "points_back L d" and li: "live_indexed L d" by (simp_all add: well_formed_def)
  note D = Delete_Some[OF pb Some]
  let ?d = "d\<lparr>store := fmdrop k (store d),
            items := (items d)[idx := (items d ! idx)\<lparr>Value := PtrDeleted\<rparr>]\<rparr>"
  have 1: "points_back L ?d"
    using pb by (auto simp: points_back_def fmpred_iff nth_list_update split: if_splits)
  have 2: "live_indexed L ?d"
    unfolding live_indexed_def
  proof (intro allI impI)
    fix i assume i: "i < length (items ?d)" and l: "\<not> IsDeleted (items ?d ! i)"
    then have ne: "i \<noteq> idx" by (auto simp: IsDeleted_def)
    with i l li have s: "fmlookup (store d) (getKey L d (Key (items d ! i))) = Some i"
      by (simp add: live_indexed_def)
    have "getKey L d (Key (items d ! i)) \<noteq> k"
    proof
      assume e: "getKey L d (Key (items d ! i)) = k"
      with norm have "getKey L d k = k" using getKey_idem[of L d "Key (items d ! i)"] by auto
      with s e Some have "i = idx" by simp
      with ne show False by simp
    qed
    with s ne show "fmlookup (store ?d) (getKey L ?d (Key (items ?d ! i))) = Some i" by simp
  qed
  from 1 2 D(1) show ?thesis by (intro that[of ?d]) (simp_all add: well_formed_def)
qed

lemma invariant_Delete:
  assumes "invariant L d" "getKey L d k = k"
  obtains d' where "Delete L d k = Some d'" "invariant L d'"
proof (cases "fmlookup (store d) (getKey L d k)")
  case None
  with assms show ?thesis by (intro that[of d]) (simp_all add: Delete_def)
next
  case (Some idx)
  from assms have w: "well_formed L d" and pb: "points_back L d" and il: "index_live d"
    by (simp_all add: invariant_iff well_formed_def)
  note D = Delete_Some[OF pb Some]
  let ?d = "d\<lparr>store := fmdrop k (store d),
            items := (items d)[idx := (items d ! idx)\<lparr>Value := PtrDeleted\<rparr>]\<rparr>"
  from well_formed_Delete[OF w disjI2[OF assms(2)]] D(1) have w: "well_formed L ?d" by auto
  have "index_live ?d"
    unfolding index_live_def fmpred_iff
  proof (intro allI impI)
    fix k' i assume "fmlookup (store ?d) k' = Some i"
    then have k': "k' \<noteq> k" "fmlookup (store d) k' = Some i" by (auto split: if_splits)
    with pb il have a: "i < length (items d)" "getKey L d (Key (items d ! i)) = k'" "\<not> IsDeleted (items d ! i)"
      by (auto simp: points_back_def index_live_def fmpred_iff)
    with D(3) assms(2) k'(1) have "i \<noteq> idx" by auto
    with a show "i < length (items ?d) \<and> \<not> IsDeleted (items ?d ! i)" by simp
  qed
  with w D(1) show ?thesis by (intro that[of ?d]) (simp_all add: invariant_iff)
qed

subsection \<open>Update preserves the invariants\<close>

lemma well_formed_Update:
  assumes "well_formed L d"
  obtains d' where "Update L d k v = Some d'" "well_formed L d'"
proof (cases "fmlookup (store d) (getKey L d k)")
  case None
  have "well_formed L (d\<lparr>store := fmupd (getKey L d k) (length (items d)) (store d),
               items := items d @ [\<lparr>Key = k, Value = v\<rparr>]\<rparr>)"
    by (rule well_formed_append[OF assms]) (simp_all add: None)
  then have "well_formed L (maybeCompact L (d\<lparr>store := fmupd (getKey L d k) (length (items d)) (store d),
               items := items d @ [\<lparr>Key = k, Value = v\<rparr>]\<rparr>))"
    by (rule well_formed_maybeCompact)
  moreover have "Update L d k v = Some (maybeCompact L (d\<lparr>store := fmupd (getKey L d k) (length (items d)) (store d),
               items := items d @ [\<lparr>Key = k, Value = v\<rparr>]\<rparr>))"
    using None by (simp add: Update_def)
  ultimately show ?thesis by (intro that)
next
  case (Some idx)
  from assms have pb: "points_back L d" and li: "live_indexed L d" by (simp_all add: well_formed_def)
  from pb Some have idx: "idx < length (items d)" "getKey L d (Key (items d ! idx)) = getKey L d k"
    by (auto simp: points_back_def fmpred_iff)
  let ?d = "d\<lparr>items := (items d)[idx := (items d ! idx)\<lparr>Value := v\<rparr>]\<rparr>"
  have U: "Update L d k v = Some ?d" using Some idx by (simp add: Update_def set_value_def)
  have 1: "points_back L ?d"
    using pb by (auto simp: points_back_def fmpred_iff nth_list_update split: if_splits)
  have 2: "live_indexed L ?d"
    unfolding live_indexed_def
  proof (intro allI impI)
    fix i assume i: "i < length (items ?d)" and l: "\<not> IsDeleted (items ?d ! i)"
    show "fmlookup (store ?d) (getKey L ?d (Key (items ?d ! i))) = Some i"
    proof (cases "i = idx")
      case True
      with idx Some show ?thesis by simp
    next
      case False
      with i l li show ?thesis by (simp add: live_indexed_def)
    qed
  qed
  from 1 2 U show ?thesis by (intro that[of ?d]) (simp_all add: well_formed_def)
qed

lemma invariant_Update:
  assumes "invariant L d" "v \<noteq> PtrDeleted"
  obtains d' where "Update L d k v = Some d'" "invariant L d'"
proof (cases "fmlookup (store d) (getKey L d k)")
  case None
  from assms have w: "well_formed L d" and pb: "points_back L d" and il: "index_live d"
    by (simp_all add: invariant_iff well_formed_def)
  have "well_formed L (d\<lparr>store := fmupd (getKey L d k) (length (items d)) (store d),
               items := items d @ [\<lparr>Key = k, Value = v\<rparr>]\<rparr>)"
    by (rule well_formed_append[OF w]) (simp_all add: None)
  moreover have "index_live (d\<lparr>store := fmupd (getKey L d k) (length (items d)) (store d),
               items := items d @ [\<lparr>Key = k, Value = v\<rparr>]\<rparr>)"
    by (rule index_live_append[OF pb il _ _ assms(2)]) simp_all
  ultimately have "invariant L (maybeCompact L (d\<lparr>store := fmupd (getKey L d k) (length (items d)) (store d),
               items := items d @ [\<lparr>Key = k, Value = v\<rparr>]\<rparr>))"
    by (intro invariant_maybeCompact) (simp add: invariant_iff)
  moreover have "Update L d k v = Some (maybeCompact L (d\<lparr>store := fmupd (getKey L d k) (length (items d)) (store d),
               items := items d @ [\<lparr>Key = k, Value = v\<rparr>]\<rparr>))"
    using None by (simp add: Update_def)
  ultimately show ?thesis by (intro that)
next
  case (Some idx)
  from assms have w: "well_formed L d" and pb: "points_back L d" and il: "index_live d"
    by (simp_all add: invariant_iff well_formed_def)
  from pb Some have idx: "idx < length (items d)"
    by (auto simp: points_back_def fmpred_iff)
  let ?d = "d\<lparr>items := (items d)[idx := (items d ! idx)\<lparr>Value := v\<rparr>]\<rparr>"
  have U: "Update L d k v = Some ?d" using Some idx by (simp add: Update_def set_value_def)
  from well_formed_Update[OF w, of k v] U have w: "well_formed L ?d" by auto
  have "index_live ?d"
    unfolding index_live_def fmpred_iff
  proof (intro allI impI)
    fix k' i assume "fmlookup (store ?d) k' = Some i"
    with il have a: "i < length (items d)" "\<not> IsDeleted (items d ! i)"
      by (auto simp: index_live_def fmpred_iff)
    show "i < length (items ?d) \<and> \<not> IsDeleted (items ?d ! i)"
    proof (cases "i = idx")
      case True
      with a assms(2) show ?thesis by (simp add: IsDeleted_def)
    next
      case False
      with a show ?thesis by simp
    qed
  qed
  with w U show ?thesis by (intro that[of ?d]) (simp_all add: invariant_iff)
qed

subsection \<open>MergeFrom and Copy\<close>

lemma invariant_set_all:
  assumes "invariant L d" "\<forall>x\<in>set xs. \<not> IsDeleted x"
  obtains d' where "set_all L d xs = Some d'" "invariant L d'"
  using assms
proof (induction xs arbitrary: d thesis)
  case Nil
  then show ?case by simp
next
  case (Cons x xs)
  from Cons.prems(3) have "Value x \<noteq> PtrDeleted" by (simp add: IsDeleted_def)
  from invariant_set'[OF Cons.prems(2) this, of "Key x"]
  obtain d1 where d1: "set' L d (Key x) (Value x) = Some d1" "invariant L d1" by blast
  from Cons.prems(3) have "\<forall>x\<in>set xs. \<not> IsDeleted x" by simp
  from Cons.IH[OF _ d1(2) this] obtain d' where "set_all L d1 xs = Some d'" "invariant L d'" by blast
  with d1(1) show ?case by (intro Cons.prems(1)[of d']) (simp_all add: Set_def)
qed

lemma well_formed_set_all:
  assumes "well_formed L d"
  obtains d' where "set_all L d xs = Some d'" "well_formed L d'"
  using assms
proof (induction xs arbitrary: d thesis)
  case Nil
  then show ?case by simp
next
  case (Cons x xs)
  from well_formed_set'[OF Cons.prems(2), of "Key x" "Value x"]
  obtain d1 where d1: "set' L d (Key x) (Value x) = Some d1" "well_formed L d1" by blast
  from Cons.IH[OF _ d1(2)] obtain d' where "set_all L d1 xs = Some d'" "well_formed L d'" by blast
  with d1(1) show ?case by (intro Cons.prems(1)[of d']) (simp_all add: Set_def)
qed

lemma invariant_MergeFrom:
  assumes "invariant L d"
  obtains d' where "MergeFrom L d other = Some d'" "invariant L d'"
  unfolding MergeFrom_def
  by (rule invariant_set_all[OF assms, of "Items other"]) (auto simp: Items_def)

lemma Copy_id: "Copy d = d"
  by (simp add: Copy_def)

lemma invariant_NewDict: "invariant L NewDict"
  by (simp add: invariant_def index_ok_def count_ok_def NewDict_def Items_def Len_def)

subsection \<open>Sequences of calls keep the store well formed\<close>

lemma well_formed_NewDict: "well_formed L NewDict"
  using invariant_NewDict by (simp add: invariant_iff)

lemma well_formed_do_call:
  assumes "well_formed L d" and "lower_idempotent L"
  obtains d' where "do_call L d c = Some d'" "well_formed L d'"
proof (cases c)
  case (CallSet k v)
  with well_formed_set'[OF assms(1), of k v] that show ?thesis by (auto simp: Set_def)
next
  case (CallUpdate k v)
  with well_formed_Update[OF assms(1), of k v] that show ?thesis by auto
next
  case (CallDelete k)
  with well_formed_Delete[OF assms(1) disjI1[OF assms(2)], of k] that show ?thesis by auto
qed

lemma well_formed_do_calls:
  assumes "well_formed L d" and "lower_idempotent L"
  obtains d' where "do_calls L d cs = Some d'" "well_formed L d'"
  using assms(1)
proof (induction cs arbitrary: d thesis)
  case Nil
  then show ?case by simp
next
  case (Cons c cs)
  from well_formed_do_call[OF Cons.prems(2) assms(2), of c]
  obtain d1 where d1: "do_call L d c = Some d1" "well_formed L d1" by blast
  from Cons.IH[OF _ d1(2)] obtain d' where "do_calls L d1 cs = Some d'" "well_formed L d'" by blast
  with d1(1) show ?case by (intro Cons.prems(1)[of d']) simp_all
qed

lemma set'_appended:
  assumes "well_formed L d"
  obtains xs where "length xs = length (items d)"
    "set' L d key v = Some (maybeCompact L (d\<lparr>store := fmupd (getKey L d key) (length xs) (store d),
                     items := xs @ [\<lparr>Key = key, Value = v\<rparr>]\<rparr>))"
    "well_formed L (d\<lparr>store := fmupd (getKey L d key) (length xs) (store d),
                     items := xs @ [\<lparr>Key = key, Value = v\<rparr>]\<rparr>)"
proof -
  from assms have pb: "points_back L d" by (simp add: well_formed_def)
  obtain xs where xs: "marked d (getKey L d key) = Some xs" "length xs = length (items d)"
    "\<And>i. i < length xs \<Longrightarrow> Key (xs ! i) = Key (items d ! i)"
    "\<And>i. i < length xs \<Longrightarrow> \<not> IsDeleted (xs ! i) \<Longrightarrow>
        xs ! i = items d ! i \<and> fmlookup (store d) (getKey L d key) \<noteq> Some i"
    by (rule marked_Some[OF pb, of "getKey L d key"]) blast
  show ?thesis
  proof (rule that[of xs])
    show "length xs = length (items d)" by fact
    show "set' L d key v = Some (maybeCompact L (d\<lparr>store := fmupd (getKey L d key) (length xs) (store d),
                     items := xs @ [\<lparr>Key = key, Value = v\<rparr>]\<rparr>))"
      using xs(1) by (simp add: set'_alt)
    show "well_formed L (d\<lparr>store := fmupd (getKey L d key) (length xs) (store d),
                     items := xs @ [\<lparr>Key = key, Value = v\<rparr>]\<rparr>)"
      by (rule well_formed_append[OF assms xs(2,3,4)])
  qed
qed

lemma tombstones_appended:
  "length xs = length (items d) \<Longrightarrow>
   tombstones (d\<lparr>store := fmupd nk i (store d), items := xs @ [x]\<rparr>)
     = tombstones d + (if nk |\<in>| fmdom (store d) then 1 else 0)"
  by (simp add: tombstones_def fcard_finsert_if)

lemma maybeCompact_keep: "tombstones d < 10 \<Longrightarrow> maybeCompact L d = d"
  by (simp add: maybeCompact_def tombstones_def)

lemma maybeCompact_compacts:
  assumes "well_formed L d" "\<not> tombstones d < 10"
  shows "items (maybeCompact L d) = filter (\<lambda>i. \<not> IsDeleted i) (items d)"
    and "invariant L (maybeCompact L d)"
    and "tombstones (maybeCompact L d) = 0"
proof -
  from assms(1) have li: "live_indexed L d" by (simp add: well_formed_def)
  obtain ns ni where c: "compact_loop L d (items d) fmempty [] = (ns, ni)"
    by (cases "compact_loop L d (items d) fmempty []")
  with assms(2) have m: "maybeCompact L d = d\<lparr>store := ns, items := ni\<rparr>"
    by (simp add: maybeCompact_def tombstones_def)
  from compacted_invariant[OF li c] m
  show 1: "items (maybeCompact L d) = filter (\<lambda>i. \<not> IsDeleted i) (items d)"
    and 2: "invariant L (maybeCompact L d)" by simp_all
  from 2 have "length (Items (maybeCompact L d)) = Len (maybeCompact L d)"
    by (simp add: invariant_def count_ok_def)
  moreover have "Items (maybeCompact L d) = items (maybeCompact L d)"
    unfolding Items_def 1 by simp
  ultimately show "tombstones (maybeCompact L d) = 0"
    by (simp add: tombstones_def Len_def)
qed

lemma tombstones_maybeCompact:
  assumes "well_formed L d"
  shows "tombstones (maybeCompact L d) \<le> 9"
proof (cases "tombstones d < 10")
  case True
  then show ?thesis by (simp add: maybeCompact_keep)
next
  case False
  from maybeCompact_compacts(3)[OF assms False] show ?thesis by simp
qed

lemma tombstones_set':
  assumes "well_formed L d"
  obtains d' where "set' L d k v = Some d'" "tombstones d' \<le> 9"
proof -
  obtain xs where xs: "set' L d k v = Some (maybeCompact L (d\<lparr>store := fmupd (getKey L d k) (length xs) (store d),
                     items := xs @ [\<lparr>Key = k, Value = v\<rparr>]\<rparr>))"
    "well_formed L (d\<lparr>store := fmupd (getKey L d k) (length xs) (store d),
                     items := xs @ [\<lparr>Key = k, Value = v\<rparr>]\<rparr>)"
    by (rule set'_appended[OF assms, of k v]) blast
  from tombstones_maybeCompact[OF xs(2)] xs(1) show ?thesis by (intro that)
qed

lemma tombstones_Update_absent:
  assumes "well_formed L d" "fmlookup (store d) (getKey L d k) = None"
  obtains d' where "Update L d k v = Some d'" "tombstones d' \<le> 9"
proof -
  let ?d = "d\<lparr>store := fmupd (getKey L d k) (length (items d)) (store d),
               items := items d @ [\<lparr>Key = k, Value = v\<rparr>]\<rparr>"
  have "well_formed L ?d"
    by (rule well_formed_append[OF assms(1)]) (simp_all add: assms(2))
  from tombstones_maybeCompact[OF this] have "tombstones (maybeCompact L ?d) \<le> 9" .
  moreover have "Update L d k v = Some (maybeCompact L ?d)" using assms(2) by (simp add: Update_def)
  ultimately show ?thesis by (intro that)
qed

lemma Delete_length:
  "Delete L d k = Some d' \<Longrightarrow> length (items d') = length (items d)"
  by (auto simp: Delete_def set_value_def split: option.splits if_splits)

lemma well_formed_MergeFrom:
  assumes "well_formed L d"
  obtains d' where "MergeFrom L d other = Some d'" "well_formed L d'"
  unfolding MergeFrom_def by (rule well_formed_set_all[OF assms])

lemma well_formed_SetCaseInsensitive:
  obtains d' where "SetCaseInsensitive L d = Some d'" "well_formed L d'"
proof -
  have "well_formed L \<lparr>items = [], store = fmempty, case_insensitive = True, default_value = VNil\<rparr>"
    by (simp add: well_formed_def points_back_def live_indexed_def)
  from well_formed_set_all[OF this] that show ?thesis
    unfolding SetCaseInsensitive_def by blast
qed

subsection \<open>The keys after a Set\<close>

lemma getKey_set':
  assumes "well_formed L d" "set' L d key v = Some d'"
  shows "getKey L d' k = getKey L d k" "case_insensitive d' = case_insensitive d" "default_value d' = default_value d"
proof -
  obtain xs where "set' L d key v = Some (maybeCompact L (d\<lparr>store := fmupd (getKey L d key) (length xs) (store d),
                     items := xs @ [\<lparr>Key = key, Value = v\<rparr>]\<rparr>))"
    by (rule set'_appended[OF assms(1), of key v]) blast
  with assms(2) show "getKey L d' k = getKey L d k" "case_insensitive d' = case_insensitive d"
    "default_value d' = default_value d" by auto
qed

lemma Keys_set':
  assumes "well_formed L d" "set' L d key v = Some d'" "v \<noteq> PtrDeleted"
  shows "Keys d' = filter (\<lambda>x. getKey L d x \<noteq> getKey L d key) (Keys d) @ [key]"
  using Items_set'[OF assms(1,2)] assms(3)
  by (simp add: Keys_Items filter_map comp_def)

lemma three_sets:
  assumes "k \<noteq> other" "v2 \<noteq> PtrDeleted" "v3 \<noteq> PtrDeleted"
  shows "map_option Keys (do_calls L NewDict [CallSet k v1, CallSet other v2, CallSet k v3]) = Some [other, k]"
proof -
  have g: "getKey L NewDict x = x" for x by (simp add: getKey_def NewDict_def)
  obtain d1 where d1: "set' L NewDict k v1 = Some d1" "well_formed L d1"
    by (rule well_formed_set'[OF well_formed_NewDict[of L], of k v1])
  have k1: "Keys d1 = (if v1 = PtrDeleted then [] else [k])"
    using Items_set'[OF well_formed_NewDict[of L] d1(1)]
    by (simp add: Keys_Items) (simp add: Items_def NewDict_def)
  have g1: "getKey L d1 x = x" for x using getKey_set'(1)[OF well_formed_NewDict[of L] d1(1)] g by simp
  obtain d2 where d2: "set' L d1 other v2 = Some d2" "well_formed L d2"
    by (rule well_formed_set'[OF d1(2), of other v2])
  have k2: "Keys d2 = (if v1 = PtrDeleted then [] else [k]) @ [other]"
    using Keys_set'[OF d1(2) d2(1) assms(2)] k1 assms(1) by (simp add: g1)
  have g2: "getKey L d2 x = x" for x using getKey_set'(1)[OF d1(2) d2(1)] g1 by simp
  obtain d3 where d3: "set' L d2 k v3 = Some d3" "well_formed L d3"
    by (rule well_formed_set'[OF d2(2), of k v3])
  have "Keys d3 = [other, k]"
    using Keys_set'[OF d2(2) d3(1) assms(3)] k2 assms(1) by (simp add: g2)
  with d1 d2 d3 show ?thesis by (simp add: Set_def)
qed

section \<open>Properties of the decoder\<close>

lemma ParseUint_max: "ParseUint ''18446744073709551615'' = (18446744073709551615, None)"
  by code_simp

lemma ParseUint_neg5: "snd (ParseUint ''-5'') = Some ErrSyntax"
  by code_simp

lemma ParseInt_neg5: "ParseInt ''-5'' = (- 5, None)"
  by code_simp

lemma ParseUint_pi: "snd (ParseUint ''3.14'') = Some ErrSyntax"
  by code_simp

lemma ParseInt_pi: "snd (ParseInt ''3.14'') = Some ErrSyntax"
  by code_simp

lemma decode_one_string:
  "\<exists>d'. UnmarshalJSON (Suc (Suc n)) L NewDict
       \<lparr>tokens = [Delim (CHR ''{''), TString ''t'', TString t, Delim (CHR ''}'')], at_end = EOF\<rparr> h
     = Returns (None, d', \<lparr>tokens = [], at_end = EOF\<rparr>, h)
   \<and> Get L d' ''t'' = Some (handle_string L t, True)"
  apply (simp add: UnmarshalJSON_def Token_def More_def close_with_def set'_def NewDict_def
      getKey_def maybeCompact_def Get_def)
  done

section \<open>Properties of the encoder\<close>

lemma marshal_loop_spec:
  assumes "\<forall>item\<in>set xs. jm (VString (Key item)) \<noteq> NoReturn
             \<and> (Value item \<noteq> VDict self \<longrightarrow> jm (Value item) \<noteq> NoReturn)"
  shows "marshal_loop jm self xs buf
       = Some (buf @ concat (map (encode_pair jm) (filter (\<lambda>i. Value i \<noteq> VDict self) xs)))"
  using assms
proof (induction xs arbitrary: buf)
  case Nil
  then show ?case by simp
next
  case (Cons x xs)
  then have IH: "\<And>b. marshal_loop jm self xs b
       = Some (b @ concat (map (encode_pair jm) (filter (\<lambda>i. Value i \<noteq> VDict self) xs)))"
    by simp
  from Cons.prems have k: "jm (VString (Key x)) \<noteq> NoReturn"
    and v: "Value x \<noteq> VDict self \<Longrightarrow> jm (Value x) \<noteq> NoReturn" by simp_all
  show ?case
  proof (cases "jm (VString (Key x))")
    case (Bytes kb)
    show ?thesis
    proof (cases "Value x = VDict self")
      case True
      with Bytes IH show ?thesis by simp
    next
      case False
      show ?thesis
      proof (cases "jm (Value x)")
        case (Bytes vb)
        with \<open>jm (VString (Key x)) = Bytes kb\<close>
        have "encode_pair jm x = kb @ '':'' @ vb @ '',''" by (simp add: encode_pair_def)
        with Bytes \<open>jm (VString (Key x)) = Bytes kb\<close> False IH show ?thesis by simp
      next
        case MarshalError
        with \<open>jm (VString (Key x)) = Bytes kb\<close>
        have "encode_pair jm x = kb @ '':'' @ ''null,''" by (simp add: encode_pair_def)
        with MarshalError \<open>jm (VString (Key x)) = Bytes kb\<close> False IH show ?thesis by simp
      next
        case NoReturn
        with v False show ?thesis by simp
      qed
    qed
  next
    case MarshalError
    then have "encode_pair jm x = []" by (simp add: encode_pair_def)
    with MarshalError IH show ?thesis
      by (cases "Value x = VDict self") simp_all
  next
    case NoReturn
    with k show ?thesis by simp
  qed
qed

subsection \<open>The decoder builds stores that satisfy the invariant\<close>

lemma handle_string_live: "handle_string L t \<noteq> PtrDeleted"
  by (simp add: handle_string_def split: option.splits)

lemma handle_number_live: "handle_number L t \<noteq> Inr PtrDeleted"
  by (simp add: handle_number_def split: prod.splits option.splits)

lemma decoder_good:
  "(\<forall>L d dec h. invariant L d \<longrightarrow> list_all (invariant L) h \<longrightarrow> good_obj L (parseobject n L d dec h))
 \<and> (\<forall>L arr dec h. list_all (invariant L) h \<longrightarrow> good_arr L (parsearray n L arr dec h))
 \<and> (\<forall>L t dec h. list_all (invariant L) h \<longrightarrow> good_val L (handledelim n L t dec h))"
proof (induction n)
  case 0
  show ?case by (simp add: good_obj_def good_arr_def good_val_def)
next
  case (Suc n)
  then have po: "\<And>L d dec h. invariant L d \<Longrightarrow> list_all (invariant L) h \<Longrightarrow> good_obj L (parseobject n L d dec h)"
    and pa: "\<And>L arr dec h. list_all (invariant L) h \<Longrightarrow> good_arr L (parsearray n L arr dec h)"
    and hd: "\<And>L t dec h. list_all (invariant L) h \<Longrightarrow> good_val L (handledelim n L t dec h)"
    by blast+
  have 1: "good_obj L (parseobject (Suc n) L d dec h)" if d: "invariant L d" and h: "list_all (invariant L) h"
    for L d dec h
  proof (cases "More dec")
    case False
    with d h show ?thesis by (simp add: good_obj_def split: prod.splits)
  next
    case True
    obtain r1 dec1 where t1: "Token dec = (r1, dec1)" by (cases "Token dec")
    show ?thesis
    proof (cases r1)
      case (Inl e)
      with True t1 d h show ?thesis by (simp add: good_obj_def)
    next
      case (Inr tok)
      show ?thesis
      proof (cases tok)
        case (TString key)
        obtain r2 dec2 where t2: "Token dec1 = (r2, dec2)" by (cases "Token dec1")
        show ?thesis
        proof (cases r2)
          case (Inl e)
          with True t1 t2 Inr TString d h show ?thesis
            by (simp add: good_obj_def split: prod.splits)
        next
          case (Inr t)
          note r2 = this
          from hd[OF h] have gv: "good_val L (handledelim n L t dec2 h)" .
          show ?thesis
          proof (cases "handledelim n L t dec2 h")
            case (Returns x)
            obtain e dec3 h3 where x: "x = (e, dec3, h3)" by (cases x)
            from gv Returns x have h3: "list_all (invariant L) h3" and live: "e \<noteq> Inr PtrDeleted"
              by (simp_all add: good_val_def)
            show ?thesis
            proof (cases e)
              case (Inl er)
              with True t1 t2 \<open>r1 = Inr tok\<close> TString r2 Returns x d h3 show ?thesis
                by (simp add: good_obj_def)
            next
              case (Inr v)
              with live have "v \<noteq> PtrDeleted" by simp
              from invariant_set'[OF d this, of key]
              obtain d1 where d1: "set' L d key v = Some d1" "invariant L d1" by blast
              from po[OF d1(2) h3, of dec3]
              have "good_obj L (parseobject n L d1 dec3 h3)" .
              with True t1 t2 \<open>r1 = Inr tok\<close> TString r2 Returns x Inr d1(1) show ?thesis
                by simp
            qed
          next
            case Panics
            with gv show ?thesis by (simp add: good_val_def)
          next
            case OutOfFuel
            with True t1 t2 \<open>r1 = Inr tok\<close> TString r2 show ?thesis
              by (simp add: good_obj_def)
          qed
        qed
      qed (use True t1 Inr d h in \<open>simp_all add: good_obj_def\<close>)
    qed
  qed
  have 2: "good_arr L (parsearray (Suc n) L arr dec h)" if h: "list_all (invariant L) h" for L arr dec h
  proof (cases "More dec")
    case False
    with h show ?thesis by (simp add: good_arr_def split: prod.splits option.splits)
  next
    case True
    obtain r1 dec1 where t1: "Token dec = (r1, dec1)" by (cases "Token dec")
    show ?thesis
    proof (cases r1)
      case (Inl e)
      with True t1 h show ?thesis by (simp add: good_arr_def)
    next
      case (Inr t)
      from hd[OF h] have gv: "good_val L (handledelim n L t dec1 h)" .
      show ?thesis
      proof (cases "handledelim n L t dec1 h")
        case (Returns x)
        obtain e dec2 h2 where x: "x = (e, dec2, h2)" by (cases x)
        from gv Returns x have h2: "list_all (invariant L) h2" by (simp add: good_val_def)
        show ?thesis
        proof (cases e)
          case (Inl er)
          with True t1 Inr Returns x h2 show ?thesis by (simp add: good_arr_def)
        next
          case (Inr v)
          from pa[OF h2, of "arr @ [v]" dec2] True t1 \<open>r1 = Inr t\<close> Returns x Inr
          show ?thesis by simp
        qed
      next
        case Panics
        with gv show ?thesis by (simp add: good_val_def)
      next
        case OutOfFuel
        with True t1 Inr show ?thesis by (simp add: good_arr_def)
      qed
    qed
  qed
  have 3: "good_val L (handledelim (Suc n) L t dec h)" if h: "list_all (invariant L) h" for L t dec h
  proof (cases t)
    case (Delim c)
    consider "c = CHR ''{''" | "c \<noteq> CHR ''{''" "c = CHR ''[''" | "c \<noteq> CHR ''{''" "c \<noteq> CHR ''[''"
      by blast
    then show ?thesis
    proof cases
      case 1
      from po[OF invariant_NewDict h, of dec]
      have g: "good_obj L (parseobject n L NewDict dec h)" .
      show ?thesis
      proof (cases "parseobject n L NewDict dec h")
        case (Returns x)
        obtain e d2 dec1 h1 where x: "x = (e, d2, dec1, h1)" by (cases x)
        with g Returns have "invariant L d2" "list_all (invariant L) h1" by (simp_all add: good_obj_def)
        with Delim 1 Returns x show ?thesis by (cases e) (simp_all add: good_val_def)
      next
        case Panics
        with g show ?thesis by (simp add: good_obj_def)
      next
        case OutOfFuel
        with Delim 1 show ?thesis by (simp add: good_val_def)
      qed
    next
      case 2
      from pa[OF h, of "[]" dec] have g: "good_arr L (parsearray n L [] dec h)" .
      show ?thesis
      proof (cases "parsearray n L [] dec h")
        case (Returns x)
        obtain e dec1 h1 where x: "x = (e, dec1, h1)" by (cases x)
        with g Returns have "list_all (invariant L) h1" by (simp add: good_arr_def)
        with Delim 2 Returns x show ?thesis by (cases e) (simp_all add: good_val_def)
      next
        case Panics
        with g show ?thesis by (simp add: good_arr_def)
      next
        case OutOfFuel
        with Delim 2 show ?thesis by (simp add: good_val_def)
      qed
    next
      case 3
      with Delim h show ?thesis by (simp add: good_val_def)
    qed
  next
    case (TString s)
    with h show ?thesis by (simp add: good_val_def handle_string_live)
  next
    case (Number s)
    with h show ?thesis by (simp add: good_val_def handle_number_live)
  qed (use h in \<open>simp_all add: good_val_def\<close>)
  from 1 2 3 show ?case by blast
qed

lemma UnmarshalJSON_good:
  assumes "invariant L d" "list_all (invariant L) h"
  shows "good_obj L (UnmarshalJSON n L d dec h)"
proof -
  from decoder_good[of n] assms have g: "good_obj L (parseobject n L d dec1 h)" for dec1 by blast
  obtain r1 dec1 where t1: "Token dec = (r1, dec1)" by (cases "Token dec")
  show ?thesis
  proof (cases "parseobject n L d dec1 h")
    case (Returns x)
    obtain e d' dec2 h2 where x: "x = (e, d', dec2, h2)" by (cases x)
    with g[of dec1] Returns have "invariant L d'" "list_all (invariant L) h2" by (simp_all add: good_obj_def)
    with t1 Returns x assms show ?thesis
      by (auto simp: UnmarshalJSON_def good_obj_def split: sum.splits prod.splits option.splits)
  next
    case Panics
    with g[of dec1] show ?thesis by (simp add: good_obj_def)
  next
    case OutOfFuel
    with t1 assms show ?thesis
      by (auto simp: UnmarshalJSON_def good_obj_def split: sum.splits)
  qed
qed

subsection \<open>Enough fuel: decoding returns\<close>

lemma Token_Inr: "Token dec = (Inr t, dec1) \<Longrightarrow> length (tokens dec) = Suc (length (tokens dec1))"
  by (auto simp: Token_def split: list.splits)

lemma Token_Inl: "Token dec = (Inl e, dec1) \<Longrightarrow> dec1 = dec"
  by (auto simp: Token_def split: list.splits)

lemma close_with_length: "close_with c e dec = (r, dec1) \<Longrightarrow> length (tokens dec1) \<le> length (tokens dec)"
  by (auto simp: close_with_def Token_def split: list.splits if_splits)

lemma decoder_fuel:
  "(\<forall>L d dec h. 2 * length (tokens dec) + 1 \<le> n \<longrightarrow> obj_returns dec (parseobject n L d dec h))
 \<and> (\<forall>L arr dec h. 2 * length (tokens dec) + 1 \<le> n \<longrightarrow> val_returns dec (parsearray n L arr dec h))
 \<and> (\<forall>L t dec h. 2 * length (tokens dec) + 2 \<le> n \<longrightarrow> val_returns dec (handledelim n L t dec h))"
proof (induction n)
  case 0
  show ?case by simp
next
  case (Suc n)
  then have po: "\<And>L d dec h. 2 * length (tokens dec) + 1 \<le> n \<Longrightarrow> obj_returns dec (parseobject n L d dec h)"
    and pa: "\<And>L arr dec h. 2 * length (tokens dec) + 1 \<le> n \<Longrightarrow> val_returns dec (parsearray n L arr dec h)"
    and hd: "\<And>L t dec h. 2 * length (tokens dec) + 2 \<le> n \<Longrightarrow> val_returns dec (handledelim n L t dec h)"
    by blast+
  have 1: "obj_returns dec (parseobject (Suc n) L d dec h)" if f: "2 * length (tokens dec) + 1 \<le> Suc n"
    for L d dec h
  proof (cases "More dec")
    case False
    obtain r dec1 where c: "close_with (CHR ''}'') ErrObjectClose dec = (r, dec1)"
      by (cases "close_with (CHR ''}'') ErrObjectClose dec")
    with False close_with_length[OF c] show ?thesis by (simp add: obj_returns_def)
  next
    case True
    obtain r1 dec1 where t1: "Token dec = (r1, dec1)" by (cases "Token dec")
    show ?thesis
    proof (cases r1)
      case (Inl e)
      with True t1 Token_Inl[of dec e dec1] show ?thesis by (simp add: obj_returns_def)
    next
      case (Inr tok)
      with t1 have l1: "length (tokens dec) = Suc (length (tokens dec1))" by (simp add: Token_Inr)
      show ?thesis
      proof (cases tok)
        case (TString key)
        obtain r2 dec2 where t2: "Token dec1 = (r2, dec2)" by (cases "Token dec1")
        show ?thesis
        proof (cases r2)
          case (Inl e)
          with t2 have e2: "dec2 = dec1" by (simp add: Token_Inl)
          obtain r dec3 where c: "close_with (CHR ''}'') ErrObjectClose dec2 = (r, dec3)"
            by (cases "close_with (CHR ''}'') ErrObjectClose dec2")
          from close_with_length[OF c] e2 l1 have "length (tokens dec3) \<le> length (tokens dec)" by simp
          with True t1 t2 \<open>r1 = Inr tok\<close> TString Inl c e2 l1 show ?thesis
            by (simp add: obj_returns_def)
        next
          case (Inr t)
          note r2 = this
          with t2 have l2: "length (tokens dec1) = Suc (length (tokens dec2))" by (simp add: Token_Inr)
          from f l1 l2 have "2 * length (tokens dec2) + 2 \<le> n" by simp
          from hd[OF this, of L t h] have gv: "val_returns dec2 (handledelim n L t dec2 h)" .
          show ?thesis
          proof (cases "handledelim n L t dec2 h")
            case (Returns x)
            obtain e dec3 h3 where x: "x = (e, dec3, h3)" by (cases x)
            from gv Returns x have l3: "length (tokens dec3) \<le> length (tokens dec2)"
              by (simp add: val_returns_def)
            show ?thesis
            proof (cases e)
              case (Inl er)
              with True t1 t2 \<open>r1 = Inr tok\<close> TString r2 Returns x l1 l2 l3 show ?thesis
                by (simp add: obj_returns_def)
            next
              case (Inr v)
              show ?thesis
              proof (cases "set' L d key v")
                case None
                with True t1 t2 \<open>r1 = Inr tok\<close> TString r2 Returns x Inr show ?thesis
                  by (simp add: obj_returns_def)
              next
                case (Some d1)
                from f l1 l2 l3 have "2 * length (tokens dec3) + 1 \<le> n" by simp
                from po[OF this, of L d1 h3]
                have "obj_returns dec3 (parseobject n L d1 dec3 h3)" .
                then have "obj_returns dec (parseobject n L d1 dec3 h3)"
                  using l1 l2 l3 by (auto simp: obj_returns_def split: outcome.splits)
                with True t1 t2 \<open>r1 = Inr tok\<close> TString r2 Returns x Inr Some show ?thesis
                  by simp
              qed
            qed
          next
            case Panics
            with True t1 t2 \<open>r1 = Inr tok\<close> TString r2 show ?thesis
              by (simp add: obj_returns_def)
          next
            case OutOfFuel
            with gv show ?thesis by (simp add: val_returns_def)
          qed
        qed
      qed (use True t1 Inr l1 in \<open>simp_all add: obj_returns_def\<close>)
    qed
  qed
  have 2: "val_returns dec (parsearray (Suc n) L arr dec h)" if f: "2 * length (tokens dec) + 1 \<le> Suc n"
    for L arr dec h
  proof (cases "More dec")
    case False
    obtain r dec1 where c: "close_with (CHR '']'') ErrArrayClose dec = (r, dec1)"
      by (cases "close_with (CHR '']'') ErrArrayClose dec")
    with False close_with_length[OF c] show ?thesis
      by (cases r) (simp_all add: val_returns_def)
  next
    case True
    obtain r1 dec1 where t1: "Token dec = (r1, dec1)" by (cases "Token dec")
    show ?thesis
    proof (cases r1)
      case (Inl e)
      with True t1 Token_Inl[of dec e dec1] show ?thesis by (simp add: val_returns_def)
    next
      case (Inr t)
      with t1 have l1: "length (tokens dec) = Suc (length (tokens dec1))" by (simp add: Token_Inr)
      with f have "2 * length (tokens dec1) + 2 \<le> n" by simp
      from hd[OF this, of L t h] have gv: "val_returns dec1 (handledelim n L t dec1 h)" .
      show ?thesis
      proof (cases "handledelim n L t dec1 h")
        case (Returns x)
        obtain e dec2 h2 where x: "x = (e, dec2, h2)" by (cases x)
        from gv Returns x have l2: "length (tokens dec2) \<le> length (tokens dec1)"
          by (simp add: val_returns_def)
        show ?thesis
        proof (cases e)
          case (Inl er)
          with True t1 \<open>r1 = Inr t\<close> Returns x l1 l2 show ?thesis by (simp add: val_returns_def)
        next
          case (Inr v)
          from f l1 l2 have "2 * length (tokens dec2) + 1 \<le> n" by simp
          from pa[OF this, of L "arr @ [v]" h2]
          have "val_returns dec2 (parsearray n L (arr @ [v]) dec2 h2)" .
          then have "val_returns dec (parsearray n L (arr @ [v]) dec2 h2)"
            using l1 l2 by (auto simp: val_returns_def split: outcome.splits)
          with True t1 \<open>r1 = Inr t\<close> Returns x Inr show ?thesis by simp
        qed
      next
        case Panics
        with True t1 Inr show ?thesis by (simp add: val_returns_def)
      next
        case OutOfFuel
        with gv show ?thesis by (simp add: val_returns_def)
      qed
    qed
  qed
  have 3: "val_returns dec (handledelim (Suc n) L t dec h)" if f: "2 * length (tokens dec) + 2 \<le> Suc n"
    for L t dec h
  proof (cases t)
    case (Delim c)
    from f have f': "2 * length (tokens dec) + 1 \<le> n" by simp
    consider "c = CHR ''{''" | "c \<noteq> CHR ''{''" "c = CHR ''[''" | "c \<noteq> CHR ''{''" "c \<noteq> CHR ''[''"
      by blast
    then show ?thesis
    proof cases
      case 1
      from po[OF f', of L NewDict h] have "obj_returns dec (parseobject n L NewDict dec h)" .
      with Delim 1 show ?thesis
        by (auto simp: obj_returns_def val_returns_def split: outcome.splits option.splits)
    next
      case 2
      from pa[OF f', of L "[]" h] have "val_returns dec (parsearray n L [] dec h)" .
      with Delim 2 show ?thesis
        by (auto simp: val_returns_def split: outcome.splits sum.splits)
    next
      case 3
      with Delim show ?thesis by (simp add: val_returns_def)
    qed
  qed (simp_all add: val_returns_def)
  from 1 2 3 show ?case by blast
qed

lemma UnmarshalJSON_returns:
  assumes "invariant L d" and "list_all (invariant L) h" and "2 * length (tokens dec) \<le> n"
  shows "\<exists>e d' dec' h'. UnmarshalJSON n L d dec h = Returns (e, d', dec', h')
           \<and> invariant L d' \<and> list_all (invariant L) h'"
proof -
  from UnmarshalJSON_good[OF assms(1,2), of n dec]
  have g: "good_obj L (UnmarshalJSON n L d dec h)" .
  have "UnmarshalJSON n L d dec h \<noteq> OutOfFuel"
  proof (cases "Token dec")
    case (Pair r1 dec1)
    show ?thesis
    proof (cases r1)
      case (Inl e)
      with Pair show ?thesis by (simp add: UnmarshalJSON_def)
    next
      case (Inr t)
      with Pair have "length (tokens dec) = Suc (length (tokens dec1))" by (simp add: Token_Inr)
      with assms(3) have "2 * length (tokens dec1) + 1 \<le> n" by simp
      with decoder_fuel[of n] have "obj_returns dec1 (parseobject n L d dec1 h)" by blast
      with Pair Inr show ?thesis
        by (auto simp: UnmarshalJSON_def obj_returns_def
            split: outcome.splits option.splits sum.splits prod.splits)
    qed
  qed
  with g show ?thesis
    by (cases "UnmarshalJSON n L d dec h") (auto simp: good_obj_def)
qed

subsection \<open>The invariant under each operation\<close>

lemma invariant_preserved:
  assumes "invariant L d"
  shows "v \<noteq> PtrDeleted \<Longrightarrow> \<exists>d'. Set L d k v = Some d' \<and> invariant L d'"
    and "v \<noteq> PtrDeleted \<Longrightarrow> \<exists>d'. Update L d k v = Some d' \<and> invariant L d'"
    and "getKey L d k = k \<Longrightarrow> \<exists>d'. Delete L d k = Some d' \<and> invariant L d'"
    and "\<exists>d'. MergeFrom L d other = Some d' \<and> invariant L d'"
    and "invariant L (Copy d)"
    and "list_all (invariant L) h \<Longrightarrow> 2 * length (tokens dec) \<le> n \<Longrightarrow>
         \<exists>e d' dec' h'. UnmarshalJSON n L d dec h = Returns (e, d', dec', h') \<and> invariant L d'"
proof -
  show "\<exists>d'. Set L d k v = Some d' \<and> invariant L d'" if "v \<noteq> PtrDeleted"
    using invariant_set'[OF assms that, of k] by (auto simp: Set_def)
  show "\<exists>d'. Update L d k v = Some d' \<and> invariant L d'" if "v \<noteq> PtrDeleted"
    using invariant_Update[OF assms that, of k] by auto
  show "\<exists>d'. Delete L d k = Some d' \<and> invariant L d'" if "getKey L d k = k"
    using invariant_Delete[OF assms that] by auto
  show "\<exists>d'. MergeFrom L d other = Some d' \<and> invariant L d'"
    using invariant_MergeFrom[OF assms, of other] by auto
  show "invariant L (Copy d)" using assms by (simp add: Copy_id)
  show "\<exists>e d' dec' h'. UnmarshalJSON n L d dec h = Returns (e, d', dec', h') \<and> invariant L d'"
    if "list_all (invariant L) h" "2 * length (tokens dec) \<le> n"
    using UnmarshalJSON_returns[OF assms that] by blast
qed

subsection \<open>Deleting a key given in its normalized form\<close>

lemma Delete_normalized_key:
  assumes "invariant L d" and "getKey L d k = k" and "fmlookup (store d) k = Some idx"
  shows "\<exists>d'. Delete L d k = Some d' \<and> invariant L d' \<and> Get L d' k = Some (default_value d, False)
           \<and> Len d' + 1 = Len d \<and> IsDeleted (items d' ! idx) \<and> tombstones d' = tombstones d + 1"
proof -
  from assms(1) have pb: "points_back L d" by (simp add: invariant_iff well_formed_def)
  from assms(2,3) have l: "fmlookup (store d) (getKey L d k) = Some idx" by simp
  note D = Delete_Some[OF pb l]
  let ?d = "d\<lparr>store := fmdrop k (store d),
            items := (items d)[idx := (items d ! idx)\<lparr>Value := PtrDeleted\<rparr>]\<rparr>"
  from invariant_Delete[OF assms(1,2)] D(1) have i: "invariant L ?d" by auto
  from assms(3) have m: "k |\<in>| fmdom (store d)" by (rule fmdomI)
  have c: "fcard (fmdom (store d) |-| {|k|}) + 1 = fcard (fmdom (store d))"
    using fcard_Suc_fminus1[OF m] by (simp only: Suc_eq_plus1)
  have g: "Get L ?d k = Some (default_value d, False)" by (simp add: Get_def assms(2))
  have t: "IsDeleted (items ?d ! idx)" using D(2) by (simp add: IsDeleted_def)
  from c have "tombstones ?d = tombstones d + 1" by (simp add: tombstones_def)
  with D(1) i g c t show ?thesis by (simp add: Len_def)
qed

subsection \<open>Counting the tombstoned entries\<close>

lemma tombstoned_tombstones:
  assumes "invariant L d"
  shows "int (tombstoned d) = tombstones d"
proof -
  from assms have "length (Items d) = fcard (fmdom (store d))"
    by (simp add: invariant_def count_ok_def Len_def)
  moreover have "length (filter IsDeleted (items d)) + length (Items d) = length (items d)"
    unfolding Items_def by (rule sum_length_filter_compl)
  ultimately show ?thesis by (simp add: tombstoned_def tombstones_def)
qed

lemma set'_appended_invariant:
  assumes "invariant L d" and "v \<noteq> PtrDeleted"
  obtains xs where "length xs = length (items d)"
    "set' L d key v = Some (maybeCompact L (d\<lparr>store := fmupd (getKey L d key) (length xs) (store d),
                     items := xs @ [\<lparr>Key = key, Value = v\<rparr>]\<rparr>))"
    "invariant L (d\<lparr>store := fmupd (getKey L d key) (length xs) (store d),
                     items := xs @ [\<lparr>Key = key, Value = v\<rparr>]\<rparr>)"
proof -
  from assms have w: "well_formed L d" and pb: "points_back L d" and il: "index_live d"
    by (simp_all add: invariant_iff well_formed_def)
  obtain xs where xs: "marked d (getKey L d key) = Some xs" "length xs = length (items d)"
    "\<And>i. i < length xs \<Longrightarrow> Key (xs ! i) = Key (items d ! i)"
    "\<And>i. i < length xs \<Longrightarrow> \<not> IsDeleted (xs ! i) \<Longrightarrow>
        xs ! i = items d ! i \<and> fmlookup (store d) (getKey L d key) \<noteq> Some i"
    "\<And>i. i < length xs \<Longrightarrow> getKey L d (Key (items d ! i)) \<noteq> getKey L d key \<Longrightarrow> xs ! i = items d ! i"
    by (rule marked_Some[OF pb, of "getKey L d key"]) blast
  show ?thesis
  proof (rule that[of xs])
    show "length xs = length (items d)" by fact
    show "set' L d key v = Some (maybeCompact L (d\<lparr>store := fmupd (getKey L d key) (length xs) (store d),
                     items := xs @ [\<lparr>Key = key, Value = v\<rparr>]\<rparr>))"
      using xs(1) by (simp add: set'_alt)
    show "invariant L (d\<lparr>store := fmupd (getKey L d key) (length xs) (store d),
                     items := xs @ [\<lparr>Key = key, Value = v\<rparr>]\<rparr>)"
      using well_formed_append[OF w xs(2,3,4), of v] index_live_append[OF pb il xs(2) xs(5) assms(2)]
      by (simp add: invariant_iff)
  qed
qed

lemma tombstoned_maybeCompact:
  assumes "invariant L d"
  shows "tombstoned d < 10 \<Longrightarrow> maybeCompact L d = d"
    and "10 \<le> tombstoned d \<Longrightarrow> tombstoned (maybeCompact L d) = 0 \<and> items (maybeCompact L d) = Items d"
proof -
  from assms have w: "well_formed L d" by (simp add: invariant_iff)
  note tt = tombstoned_tombstones[OF assms]
  show "maybeCompact L d = d" if "tombstoned d < 10"
    using that tt by (intro maybeCompact_keep) simp
  show "tombstoned (maybeCompact L d) = 0 \<and> items (maybeCompact L d) = Items d" if "10 \<le> tombstoned d"
  proof -
    from that tt have n: "\<not> tombstones d < 10" by simp
    from maybeCompact_compacts(1)[OF w n] show ?thesis
      by (simp add: tombstoned_def Items_def)
  qed
qed

lemma tombstoned_set':
  assumes "invariant L d" and "v \<noteq> PtrDeleted"
  shows "\<exists>d'. set' L d k v = Some d' \<and> invariant L d' \<and> tombstoned d' \<le> 9
           \<and> int (tombstoned d') = int (length (items d')) - int (Len d')
           \<and> (tombstoned d + (if getKey L d k |\<in>| fmdom (store d) then 1 else 0) < 10 \<longrightarrow>
                tombstoned d' = tombstoned d + (if getKey L d k |\<in>| fmdom (store d) then 1 else 0)
                \<and> length (items d') = length (items d) + 1)
           \<and> (10 \<le> tombstoned d + (if getKey L d k |\<in>| fmdom (store d) then 1 else 0) \<longrightarrow>
                tombstoned d' = 0 \<and> items d' = Items d')"
proof -
  obtain xs where xs: "length xs = length (items d)"
    "set' L d k v = Some (maybeCompact L (d\<lparr>store := fmupd (getKey L d k) (length xs) (store d),
                     items := xs @ [\<lparr>Key = k, Value = v\<rparr>]\<rparr>))"
    "invariant L (d\<lparr>store := fmupd (getKey L d k) (length xs) (store d),
                     items := xs @ [\<lparr>Key = k, Value = v\<rparr>]\<rparr>)"
    by (rule set'_appended_invariant[OF assms, of k]) blast
  let ?d1 = "d\<lparr>store := fmupd (getKey L d k) (length xs) (store d),
                     items := xs @ [\<lparr>Key = k, Value = v\<rparr>]\<rparr>"
  let ?t = "tombstoned d + (if getKey L d k |\<in>| fmdom (store d) then 1 else 0)"
  have "int (tombstoned ?d1) = tombstones ?d1" by (rule tombstoned_tombstones[OF xs(3)])
  also have "\<dots> = tombstones d + (if getKey L d k |\<in>| fmdom (store d) then 1 else 0)"
    by (rule tombstones_appended[OF xs(1)])
  also have "\<dots> = int ?t" using tombstoned_tombstones[OF assms(1)] by simp
  finally have t1: "tombstoned ?d1 = ?t" by simp
  have i': "invariant L (maybeCompact L ?d1)" by (rule invariant_maybeCompact[OF xs(3)])
  have c: "int (tombstoned (maybeCompact L ?d1))
         = int (length (items (maybeCompact L ?d1))) - int (Len (maybeCompact L ?d1))"
    using tombstoned_tombstones[OF i'] by (simp add: tombstones_def Len_def)
  show ?thesis
  proof (cases "?t < 10")
    case True
    with t1 tombstoned_maybeCompact(1)[OF xs(3)] have e: "maybeCompact L ?d1 = ?d1" by simp
    from True t1 xs(1) have "tombstoned ?d1 \<le> 9" "length (items ?d1) = length (items d) + 1"
      by simp_all
    with xs(2) xs(3) e t1 True c show ?thesis by simp
  next
    case False
    with t1 tombstoned_maybeCompact(2)[OF xs(3)]
    have z: "tombstoned (maybeCompact L ?d1) = 0" "items (maybeCompact L ?d1) = Items ?d1" by simp_all
    have "Items (maybeCompact L ?d1) = Items ?d1" by simp
    with z xs(2) i' False c show ?thesis by simp
  qed
qed

lemma tombstoned_Update_absent:
  assumes "invariant L d" and "v \<noteq> PtrDeleted" and "fmlookup (store d) (getKey L d k) = None"
  shows "\<exists>d'. Update L d k v = Some d' \<and> invariant L d' \<and> tombstoned d' \<le> 9"
proof -
  from assms(3) have "Update L d k v = set' L d k v"
    by (simp add: Update_def set'_def Let_def)
  with tombstoned_set'[OF assms(1,2), of k] show ?thesis by auto
qed

subsection \<open>Calls with ordinary values and normalized Delete keys keep the invariant\<close>

lemma case_insensitive_do_call:
  "do_call L d c = Some d' \<Longrightarrow> case_insensitive d' = case_insensitive d"
  by (cases c)
     (auto simp: Set_def set'_def Update_def Delete_def Let_def split: option.splits)

lemma invariant_do_calls:
  assumes "invariant L d"
    and "\<forall>c\<in>set cs. case c of CallSet k v \<Rightarrow> v \<noteq> PtrDeleted
                         | CallUpdate k v \<Rightarrow> v \<noteq> PtrDeleted
                         | CallDelete k \<Rightarrow> getKey L d k = k"
  obtains d' where "do_calls L d cs = Some d'" "invariant L d'"
  using assms
proof (induction cs arbitrary: d thesis)
  case Nil
  then show ?case by simp
next
  case (Cons c cs)
  have "\<exists>d1. do_call L d c = Some d1 \<and> invariant L d1"
  proof (cases c)
    case (CallSet k v)
    with Cons.prems(3) have "v \<noteq> PtrDeleted" by simp
    from invariant_set'[OF Cons.prems(2) this, of k] CallSet show ?thesis by (auto simp: Set_def)
  next
    case (CallUpdate k v)
    with Cons.prems(3) have "v \<noteq> PtrDeleted" by simp
    from invariant_Update[OF Cons.prems(2) this, of k] CallUpdate show ?thesis by auto
  next
    case (CallDelete k)
    with Cons.prems(3) have "getKey L d k = k" by simp
    from invariant_Delete[OF Cons.prems(2) this] CallDelete show ?thesis by auto
  qed
  then obtain d1 where d1: "do_call L d c = Some d1" "invariant L d1" by blast
  from case_insensitive_do_call[OF d1(1)] have g: "getKey L d1 = getKey L d"
    by (simp add: getKey_def fun_eq_iff)
  from Cons.prems(3) have "\<forall>c\<in>set cs. case c of CallSet k v \<Rightarrow> v \<noteq> PtrDeleted
                         | CallUpdate k v \<Rightarrow> v \<noteq> PtrDeleted
                         | CallDelete k \<Rightarrow> getKey L d1 k = k"
    unfolding g by simp
  from Cons.IH[OF _ d1(2) this] obtain d' where "do_calls L d1 cs = Some d'" "invariant L d'" by blast
  with d1(1) show ?case by (intro Cons.prems(1)[of d']) simp_all
qed

subsection \<open>The decoder inserts every pair with \<^verbatim>\<open>set\<close>\<close>

lemma handledelim_live:
  "handledelim n L t dec h = Returns (Inr v, dec', h') \<Longrightarrow> v \<noteq> PtrDeleted"
proof (cases n)
  case 0
  then show "handledelim n L t dec h = Returns (Inr v, dec', h') \<Longrightarrow> v \<noteq> PtrDeleted" by simp
next
  case (Suc m)
  assume r: "handledelim n L t dec h = Returns (Inr v, dec', h')"
  show "v \<noteq> PtrDeleted"
  proof (cases t)
    case (Delim c)
    with r Suc show ?thesis
      by (auto split: if_splits outcome.splits prod.splits option.splits sum.splits)
  next
    case (TString s)
    with r Suc show ?thesis using handle_string_live[of L s] by auto
  next
    case (Number s)
    with r Suc show ?thesis using handle_number_live[of L s] by auto
  qed (use r Suc in auto)
qed

lemma parseobject_pair:
  assumes "well_formed L d" and "More dec" and "Token dec = (Inr (TString key), dec1)"
    and "Token dec1 = (Inr t, dec2)" and "handledelim n L t dec2 h = Returns (Inr v, dec3, h3)"
  shows "\<exists>d1. set' L d key v = Some d1 \<and> well_formed L d1
           \<and> parseobject (Suc n) L d dec h = parseobject n L d1 dec3 h3
           \<and> Items d1 = moved_to_end L d \<lparr>Key = key, Value = v\<rparr> (Items d)
           \<and> Keys d1 = filter (\<lambda>x. getKey L d x \<noteq> getKey L d key) (Keys d) @ [key]"
proof -
  from handledelim_live[OF assms(5)] have v: "v \<noteq> PtrDeleted" .
  obtain d1 where d1: "set' L d key v = Some d1" "well_formed L d1"
    by (rule well_formed_set'[OF assms(1), of key v])
  from assms(2-5) d1(1) have "parseobject (Suc n) L d dec h = parseobject n L d1 dec3 h3" by simp
  with d1 Items_set'[OF assms(1) d1(1)] Keys_set'[OF assms(1) d1(1) v] v show ?thesis
    by (simp add: moved_to_end_def)
qed

lemma Items_set_all:
  assumes "well_formed L d" and "\<forall>x\<in>set xs. \<not> IsDeleted x"
  shows "\<exists>d'. set_all L d xs = Some d' \<and> well_formed L d' \<and> Items d' = fold (moved_to_end L d) xs (Items d)"
  using assms
proof (induction xs arbitrary: d)
  case Nil
  then show ?case by simp
next
  case (Cons x xs)
  from Cons.prems(2) have v: "Value x \<noteq> PtrDeleted" by (simp add: IsDeleted_def)
  obtain d1 where d1: "set' L d (Key x) (Value x) = Some d1" "well_formed L d1"
    by (rule well_formed_set'[OF Cons.prems(1), of "Key x" "Value x"])
  from Items_set'[OF Cons.prems(1) d1(1)] v
  have i1: "Items d1 = moved_to_end L d x (Items d)" by (simp add: moved_to_end_def)
  have g: "moved_to_end L d1 = moved_to_end L d"
    using getKey_set'(1)[OF Cons.prems(1) d1(1)] by (simp add: moved_to_end_def fun_eq_iff)
  from Cons.IH[OF d1(2)] Cons.prems(2)
  obtain d' where "set_all L d1 xs = Some d'" "well_formed L d'"
    "Items d' = fold (moved_to_end L d1) xs (Items d1)" by auto
  with d1(1) i1 g show ?case by (simp add: Set_def)
qed

lemma flat_scalar:
  assumes "scalar_value L t = Some v"
  shows "handledelim (Suc n) L t dec h = Returns (Inr v, dec, h)"
  using assms by (cases t) (auto simp: scalar_value_def split: sum.splits)

lemma parseobject_flat:
  assumes "well_formed L d" and "\<forall>kt\<in>set kts. scalar_value L (snd kt) \<noteq> None" and "length kts < n"
  shows "\<exists>d'. parseobject n L d \<lparr>tokens = flat_tokens kts @ Delim (CHR ''}'') # rest, at_end = e\<rparr> h
                 = Returns (None, d', \<lparr>tokens = rest, at_end = e\<rparr>, h)
             \<and> set_all L d (map (pair_item L) kts) = Some d'"
  using assms
proof (induction kts arbitrary: d n)
  case Nil
  then obtain m where "n = Suc m" by (cases n) auto
  then show ?case by (simp add: More_def close_with_def Token_def)
next
  case (Cons kt kts)
  obtain k t where kt: "kt = (k, t)" by (cases kt)
  from Cons.prems(3) obtain m where n: "n = Suc (Suc m)" "length kts < Suc m"
    by (cases n; cases "n - 1") auto
  from Cons.prems(2) kt obtain v where v: "scalar_value L t = Some v" by auto
  let ?dec2 = "\<lparr>tokens = flat_tokens kts @ Delim (CHR ''}'') # rest, at_end = e\<rparr>"
  have hd: "handledelim (Suc m) L t ?dec2 h = Returns (Inr v, ?dec2, h)"
    by (rule flat_scalar[OF v])
  obtain d1 where d1: "set' L d k v = Some d1" "well_formed L d1"
    by (rule well_formed_set'[OF Cons.prems(1), of k v])
  from Cons.IH[OF d1(2) _ n(2)] Cons.prems(2)
  obtain d' where d': "parseobject (Suc m) L d1 ?dec2 h = Returns (None, d', \<lparr>tokens = rest, at_end = e\<rparr>, h)"
    "set_all L d1 (map (pair_item L) kts) = Some d'" by auto
  have "parseobject n L d \<lparr>tokens = flat_tokens (kt # kts) @ Delim (CHR ''}'') # rest, at_end = e\<rparr> h
      = parseobject (Suc m) L d1 ?dec2 h"
    using kt n(1) hd d1(1) by (simp add: More_def Token_def)
  moreover have "set_all L d (map (pair_item L) (kt # kts)) = set_all L d1 (map (pair_item L) kts)"
    using kt v d1(1) by (simp add: pair_item_def Set_def)
  ultimately show ?case using d' by simp
qed

lemma pair_item_live:
  "scalar_value L (snd kt) \<noteq> None \<Longrightarrow> \<not> IsDeleted (pair_item L kt)"
  using handle_string_live[of L] handle_number_live[of L]
  by (cases "snd kt") (auto simp: pair_item_def scalar_value_def IsDeleted_def split: sum.splits)

lemma UnmarshalJSON_flat:
  assumes "well_formed L d" and "\<forall>kt\<in>set kts. scalar_value L (snd kt) \<noteq> None" and "length kts < n"
  shows "\<exists>d'. UnmarshalJSON n L d
                 \<lparr>tokens = Delim (CHR ''{'') # flat_tokens kts @ [Delim (CHR ''}'')], at_end = EOF\<rparr> h
                 = Returns (None, d', \<lparr>tokens = [], at_end = EOF\<rparr>, h)
             \<and> Items d' = fold (moved_to_end L d) (map (pair_item L) kts) (Items d)"
proof -
  from parseobject_flat[OF assms, of "[]" EOF h]
  obtain d' where d': "parseobject n L d \<lparr>tokens = flat_tokens kts @ [Delim (CHR ''}'')], at_end = EOF\<rparr> h
                 = Returns (None, d', \<lparr>tokens = [], at_end = EOF\<rparr>, h)"
    "set_all L d (map (pair_item L) kts) = Some d'" by auto
  have "\<forall>x\<in>set (map (pair_item L) kts). \<not> IsDeleted x"
    using assms(2) pair_item_live by auto
  from Items_set_all[OF assms(1) this] d'(2)
  have "Items d' = fold (moved_to_end L d) (map (pair_item L) kts) (Items d)" by auto
  with d'(1) show ?thesis by (simp add: UnmarshalJSON_def Token_def)
qed

section \<open>C1: deleting a key\<close>

text \<open>
  C1. Deleting a present key should remove its normalized key from the index, so that
  the next Get misses and Len drops by one. On a case-insensitive store the code removes
  the literal key instead: after Set("Foo", 1) and Delete("Foo") the index still maps
  "foo" to the tombstoned entry, Get("Foo") reports a hit with the tombstone marker as
  its value, and Len stays at 1. (For a key given in its normalized form, so on every
  case-sensitive store, the claim holds: \<open>Delete_normalized_key\<close>.)
\<close>

theorem Delete_case_insensitive_literal_key:
  "do { d0 \<leftarrow> SetCaseInsensitive \<lparr>strings_ToLower = ascii_lower, ParseFloat = (\<lambda>s. None), time_Parse = (\<lambda>s. None)\<rparr> NewDict;
        d1 \<leftarrow> Set \<lparr>strings_ToLower = ascii_lower, ParseFloat = (\<lambda>s. None), time_Parse = (\<lambda>s. None)\<rparr> d0 ''Foo'' (VInt 1);
        d2 \<leftarrow> Delete \<lparr>strings_ToLower = ascii_lower, ParseFloat = (\<lambda>s. None), time_Parse = (\<lambda>s. None)\<rparr> d1 ''Foo'';
        Some (Get \<lparr>strings_ToLower = ascii_lower, ParseFloat = (\<lambda>s. None), time_Parse = (\<lambda>s. None)\<rparr> d1 ''Foo'', Len d1, Get \<lparr>strings_ToLower = ascii_lower, ParseFloat = (\<lambda>s. None), time_Parse = (\<lambda>s. None)\<rparr> d2 ''Foo'', Len d2,
              fmlookup (store d2) ''foo'', Keys d2) }
   = Some (Some (VInt 1, True), 1, Some (PtrDeleted, True), 1, Some 0, [])"
  by code_simp

section \<open>C2: the invariant after every operation\<close>

text \<open>
  C2. After every public operation each index entry should point at an entry that
  carries this normalized key and is not tombstoned, and the live entries should be as
  many as the index entries. The literal-key removal in Delete breaks both parts on a
  case-insensitive store: after Set("Foo", 1) the invariant holds; after Delete("Foo")
  the index entry "foo" points at a tombstoned entry, and there is no live entry for
  one index entry.
\<close>

theorem Delete_case_insensitive_breaks_invariant:
  "do { d0 \<leftarrow> SetCaseInsensitive \<lparr>strings_ToLower = ascii_lower, ParseFloat = (\<lambda>s. None), time_Parse = (\<lambda>s. None)\<rparr> NewDict;
        d1 \<leftarrow> Set \<lparr>strings_ToLower = ascii_lower, ParseFloat = (\<lambda>s. None), time_Parse = (\<lambda>s. None)\<rparr> d0 ''Foo'' (VInt 1);
        d2 \<leftarrow> Delete \<lparr>strings_ToLower = ascii_lower, ParseFloat = (\<lambda>s. None), time_Parse = (\<lambda>s. None)\<rparr> d1 ''Foo'';
        Some (invariant \<lparr>strings_ToLower = ascii_lower, ParseFloat = (\<lambda>s. None), time_Parse = (\<lambda>s. None)\<rparr> d1, index_ok \<lparr>strings_ToLower = ascii_lower, ParseFloat = (\<lambda>s. None), time_Parse = (\<lambda>s. None)\<rparr> d2, count_ok d2, length (Items d2), Len d2) }
   = Some (True, False, False, 0, 1)"
  by code_simp

section \<open>C3: the encoder's output\<close>

text \<open>
  C3. The encoder should always produce a valid document, an empty object at least. The
  code drops the last byte of the buffer whenever the backing slice is not empty, also
  when no pair was written: for a store whose only entry is tombstoned the output is a
  lone closing brace.
\<close>

theorem MarshalJSON_all_tombstoned:
  "do { d1 \<leftarrow> Set L NewDict ''a'' (VInt 1);
        d2 \<leftarrow> Delete L d1 ''a'';
        Some (Len d2, Items d2, MarshalJSON jm self d2) }
   = Some (0, [], Some ''}'')"
  by code_simp

section \<open>C4: case-insensitive stores\<close>

text \<open>
  C4, as stated, fails: the first literal casing is not what Keys reports after a later
  Set under another casing. On a case-insensitive store, Set("Foo", 1) followed by
  Set("FOO", 2) leaves the single key "FOO".
\<close>

theorem first_casing_replaced_by_Set:
  "do { d0 \<leftarrow> SetCaseInsensitive \<lparr>strings_ToLower = ascii_lower, ParseFloat = (\<lambda>s. None), time_Parse = (\<lambda>s. None)\<rparr> NewDict;
        d \<leftarrow> do_calls \<lparr>strings_ToLower = ascii_lower, ParseFloat = (\<lambda>s. None), time_Parse = (\<lambda>s. None)\<rparr> d0 [CallSet ''Foo'' (VInt 1), CallSet ''FOO'' (VInt 2)];
        Some (Keys d, Get \<lparr>strings_ToLower = ascii_lower, ParseFloat = (\<lambda>s. None), time_Parse = (\<lambda>s. None)\<rparr> d ''foo'') }
   = Some ([''FOO''], Some (VInt 2, True))"
  by code_simp

text \<open>
  C4, amended. On a case-insensitive store lookups fold case: after Set(k, v) every key
  that \<^verbatim>\<open>strings.ToLower\<close> folds like \<open>k\<close> hits with value \<open>v\<close>. Keys reports the literal
  casing of the most recent Set for a key: every earlier entry whose key folds like \<open>k\<close>
  is gone and \<open>k\<close>, as written, is the last key. This holds for every folding function,
  so for all keys, ASCII or not. (\<open>v\<close> is any value but the tombstone marker.)
\<close>

theorem case_insensitive_Set_keeps_latest_casing:
  assumes "well_formed L d" and "case_insensitive d" and "v \<noteq> PtrDeleted"
  shows "\<exists>d'. Set L d k v = Some d'
           \<and> (\<forall>k'. strings_ToLower L k' = strings_ToLower L k \<longrightarrow> Get L d' k' = Some (v, True))
           \<and> Keys d' = filter (\<lambda>x. strings_ToLower L x \<noteq> strings_ToLower L k) (Keys d) @ [k]"
proof -
  have g: "getKey L d x = strings_ToLower L x" for x using assms(2) by (simp add: getKey_def)
  obtain d' where d': "set' L d k v = Some d'"
    by (rule well_formed_set'[OF assms(1), of k v])
  have "Get L d' k' = Some (v, True)" if "strings_ToLower L k' = strings_ToLower L k" for k'
    by (rule Get_set'[OF assms(1,3) d']) (simp add: g that)
  with Keys_set'[OF assms(1) d' assms(3)] d' show ?thesis by (simp add: Set_def g)
qed

theorem case_insensitive_Set_keeps_latest_casing_witness:
  "well_formed \<lparr>strings_ToLower = ascii_lower, ParseFloat = (\<lambda>s. None), time_Parse = (\<lambda>s. None)\<rparr> \<lparr>items = [], store = fmempty, case_insensitive = True, default_value = VNil\<rparr> \<and> case_insensitive \<lparr>items = [], store = fmempty, case_insensitive = True, default_value = VNil\<rparr> \<and> VInt 1 \<noteq> PtrDeleted
   \<and> strings_ToLower \<lparr>strings_ToLower = ascii_lower, ParseFloat = (\<lambda>s. None), time_Parse = (\<lambda>s. None)\<rparr> ''FOO'' = strings_ToLower \<lparr>strings_ToLower = ascii_lower, ParseFloat = (\<lambda>s. None), time_Parse = (\<lambda>s. None)\<rparr> ''Foo''
   \<and> (\<exists>d'. Set \<lparr>strings_ToLower = ascii_lower, ParseFloat = (\<lambda>s. None), time_Parse = (\<lambda>s. None)\<rparr> \<lparr>items = [], store = fmempty, case_insensitive = True, default_value = VNil\<rparr> ''Foo'' (VInt 1) = Some d'
          \<and> Get \<lparr>strings_ToLower = ascii_lower, ParseFloat = (\<lambda>s. None), time_Parse = (\<lambda>s. None)\<rparr> d' ''FOO'' = Some (VInt 1, True) \<and> Keys d' = [''Foo''])
   \<and> well_formed \<lparr>strings_ToLower = ascii_lower, ParseFloat = (\<lambda>s. None), time_Parse = (\<lambda>s. None)\<rparr> \<lparr>items = [\<lparr>Key = ''Foo'', Value = VInt 1\<rparr>], store = fmupd ''foo'' 0 fmempty, case_insensitive = True, default_value = VNil\<rparr> \<and> case_insensitive \<lparr>items = [\<lparr>Key = ''Foo'', Value = VInt 1\<rparr>], store = fmupd ''foo'' 0 fmempty, case_insensitive = True, default_value = VNil\<rparr> \<and> VInt 2 \<noteq> PtrDeleted
   \<and> (\<exists>d'. Set \<lparr>strings_ToLower = ascii_lower, ParseFloat = (\<lambda>s. None), time_Parse = (\<lambda>s. None)\<rparr> \<lparr>items = [\<lparr>Key = ''Foo'', Value = VInt 1\<rparr>], store = fmupd ''foo'' 0 fmempty, case_insensitive = True, default_value = VNil\<rparr> ''FOO'' (VInt 2) = Some d'
          \<and> Get \<lparr>strings_ToLower = ascii_lower, ParseFloat = (\<lambda>s. None), time_Parse = (\<lambda>s. None)\<rparr> d' ''Foo'' = Some (VInt 2, True) \<and> Keys d' = [''FOO''])"
proof -
  have w0: "well_formed \<lparr>strings_ToLower = ascii_lower, ParseFloat = (\<lambda>s. None), time_Parse = (\<lambda>s. None)\<rparr> \<lparr>items = [], store = fmempty, case_insensitive = True, default_value = VNil\<rparr>" by code_simp
  have w1: "well_formed \<lparr>strings_ToLower = ascii_lower, ParseFloat = (\<lambda>s. None), time_Parse = (\<lambda>s. None)\<rparr> \<lparr>items = [\<lparr>Key = ''Foo'', Value = VInt 1\<rparr>], store = fmupd ''foo'' 0 fmempty, case_insensitive = True, default_value = VNil\<rparr>" by code_simp
  have l: "strings_ToLower \<lparr>strings_ToLower = ascii_lower, ParseFloat = (\<lambda>s. None), time_Parse = (\<lambda>s. None)\<rparr> ''FOO'' = strings_ToLower \<lparr>strings_ToLower = ascii_lower, ParseFloat = (\<lambda>s. None), time_Parse = (\<lambda>s. None)\<rparr> ''Foo''" by code_simp
  have k0: "filter (\<lambda>x. strings_ToLower \<lparr>strings_ToLower = ascii_lower, ParseFloat = (\<lambda>s. None), time_Parse = (\<lambda>s. None)\<rparr> x \<noteq> strings_ToLower \<lparr>strings_ToLower = ascii_lower, ParseFloat = (\<lambda>s. None), time_Parse = (\<lambda>s. None)\<rparr> ''Foo'') (Keys \<lparr>items = [], store = fmempty, case_insensitive = True, default_value = VNil\<rparr>) @ [''Foo''] = [''Foo'']"
    by code_simp
  have k1: "filter (\<lambda>x. strings_ToLower \<lparr>strings_ToLower = ascii_lower, ParseFloat = (\<lambda>s. None), time_Parse = (\<lambda>s. None)\<rparr> x \<noteq> strings_ToLower \<lparr>strings_ToLower = ascii_lower, ParseFloat = (\<lambda>s. None), time_Parse = (\<lambda>s. None)\<rparr> ''FOO'') (Keys \<lparr>items = [\<lparr>Key = ''Foo'', Value = VInt 1\<rparr>], store = fmupd ''foo'' 0 fmempty, case_insensitive = True, default_value = VNil\<rparr>) @ [''FOO''] = [''FOO'']"
    by code_simp
  from case_insensitive_Set_keeps_latest_casing[OF w0, of "VInt 1" "''Foo''"] l k0
  have a: "\<exists>d'. Set \<lparr>strings_ToLower = ascii_lower, ParseFloat = (\<lambda>s. None), time_Parse = (\<lambda>s. None)\<rparr> \<lparr>items = [], store = fmempty, case_insensitive = True, default_value = VNil\<rparr> ''Foo'' (VInt 1) = Some d'
          \<and> Get \<lparr>strings_ToLower = ascii_lower, ParseFloat = (\<lambda>s. None), time_Parse = (\<lambda>s. None)\<rparr> d' ''FOO'' = Some (VInt 1, True) \<and> Keys d' = [''Foo'']"
    by auto
  from case_insensitive_Set_keeps_latest_casing[OF w1, of "VInt 2" "''FOO''"] l k1
  have b: "\<exists>d'. Set \<lparr>strings_ToLower = ascii_lower, ParseFloat = (\<lambda>s. None), time_Parse = (\<lambda>s. None)\<rparr> \<lparr>items = [\<lparr>Key = ''Foo'', Value = VInt 1\<rparr>], store = fmupd ''foo'' 0 fmempty, case_insensitive = True, default_value = VNil\<rparr> ''FOO'' (VInt 2) = Some d'
          \<and> Get \<lparr>strings_ToLower = ascii_lower, ParseFloat = (\<lambda>s. None), time_Parse = (\<lambda>s. None)\<rparr> d' ''Foo'' = Some (VInt 2, True) \<and> Keys d' = [''FOO'']"
    by auto
  from w0 w1 l a b show ?thesis by simp
qed

section \<open>C5: the bound on tombstones\<close>

text \<open>
  C5, as stated, fails: a store can hold more than 9 tombstoned entries at an
  observation point, because Delete never compacts. Ten Sets of one key leave 9
  tombstoned entries; the Delete that follows makes them 10, on a store where the
  invariant holds and the entries outnumber the index by 10.
\<close>

theorem ten_tombstones_after_Delete:
  "do { d \<leftarrow> do_calls \<lparr>strings_ToLower = ascii_lower, ParseFloat = (\<lambda>s. None), time_Parse = (\<lambda>s. None)\<rparr> NewDict (replicate 10 (CallSet ''k'' (VInt 1)) @ [CallDelete ''k'']);
        Some (tombstoned d, tombstones d, invariant \<lparr>strings_ToLower = ascii_lower, ParseFloat = (\<lambda>s. None), time_Parse = (\<lambda>s. None)\<rparr> d) }
   = Some (10, 10, True)"
  by code_simp

text \<open>
  C5, amended. On a store where the index invariant holds, the tombstoned entries are as
  many as the entries exceed the index. Right after every append of a value other than
  the marker (a Set, or an Update of an absent key) the invariant holds again and at most
  9 entries are tombstoned. The append compacts exactly when 10 or more tombstones are
  then outstanding, those of before plus the entry it replaces: with fewer, the entries
  stay and the new one is added; otherwise only the live entries are kept, in their
  order, and no tombstone is left. In both cases the live items are those of before
  without the replaced one, followed by the new pair. Delete keeps the length of the
  entry sequence: it never compacts, so between appends the count may exceed 9.
\<close>

theorem tombstoned_at_most_9_after_append:
  assumes "invariant L d" and "v \<noteq> PtrDeleted"
  shows "int (tombstoned d) = int (length (items d)) - int (Len d)
       \<and> (\<exists>d'. Set L d k v = Some d' \<and> invariant L d' \<and> tombstoned d' \<le> 9
             \<and> int (tombstoned d') = int (length (items d')) - int (Len d')
             \<and> Items d' = filter (\<lambda>x. getKey L d (Key x) \<noteq> getKey L d k) (Items d) @ [\<lparr>Key = k, Value = v\<rparr>]
             \<and> (tombstoned d + (if getKey L d k |\<in>| fmdom (store d) then 1 else 0) < 10 \<longrightarrow>
                  tombstoned d' = tombstoned d + (if getKey L d k |\<in>| fmdom (store d) then 1 else 0)
                  \<and> length (items d') = length (items d) + 1)
             \<and> (10 \<le> tombstoned d + (if getKey L d k |\<in>| fmdom (store d) then 1 else 0) \<longrightarrow>
                  tombstoned d' = 0 \<and> items d' = Items d'))
       \<and> (fmlookup (store d) (getKey L d k) = None \<longrightarrow>
            (\<exists>d'. Update L d k v = Some d' \<and> invariant L d' \<and> tombstoned d' \<le> 9))
       \<and> (\<forall>d'. Delete L d k = Some d' \<longrightarrow> length (items d') = length (items d))"
proof (intro conjI impI allI)
  show "int (tombstoned d) = int (length (items d)) - int (Len d)"
    using tombstoned_tombstones[OF assms(1)] by (simp add: tombstones_def Len_def)
  from assms(1) have w: "well_formed L d" by (simp add: invariant_iff)
  from tombstoned_set'[OF assms, of k] obtain d' where d': "set' L d k v = Some d'"
    "invariant L d'" "tombstoned d' \<le> 9"
    "int (tombstoned d') = int (length (items d')) - int (Len d')"
    "tombstoned d + (if getKey L d k |\<in>| fmdom (store d) then 1 else 0) < 10 \<longrightarrow>
                tombstoned d' = tombstoned d + (if getKey L d k |\<in>| fmdom (store d) then 1 else 0)
                \<and> length (items d') = length (items d) + 1"
    "10 \<le> tombstoned d + (if getKey L d k |\<in>| fmdom (store d) then 1 else 0) \<longrightarrow>
                tombstoned d' = 0 \<and> items d' = Items d'"
    by blast
  from Items_set'[OF w d'(1)] assms(2)
  have "Items d' = filter (\<lambda>x. getKey L d (Key x) \<noteq> getKey L d k) (Items d) @ [\<lparr>Key = k, Value = v\<rparr>]"
    by simp
  with d' show "\<exists>d'. Set L d k v = Some d' \<and> invariant L d' \<and> tombstoned d' \<le> 9
             \<and> int (tombstoned d') = int (length (items d')) - int (Len d')
             \<and> Items d' = filter (\<lambda>x. getKey L d (Key x) \<noteq> getKey L d k) (Items d) @ [\<lparr>Key = k, Value = v\<rparr>]
             \<and> (tombstoned d + (if getKey L d k |\<in>| fmdom (store d) then 1 else 0) < 10 \<longrightarrow>
                  tombstoned d' = tombstoned d + (if getKey L d k |\<in>| fmdom (store d) then 1 else 0)
                  \<and> length (items d') = length (items d) + 1)
             \<and> (10 \<le> tombstoned d + (if getKey L d k |\<in>| fmdom (store d) then 1 else 0) \<longrightarrow>
                  tombstoned d' = 0 \<and> items d' = Items d')"
    unfolding Set_def by blast
  show "\<exists>d'. Update L d k v = Some d' \<and> invariant L d' \<and> tombstoned d' \<le> 9"
    if "fmlookup (store d) (getKey L d k) = None"
    using tombstoned_Update_absent[OF assms that] .
  show "length (items d') = length (items d)" if "Delete L d k = Some d'" for d'
    using that by (rule Delete_length)
qed

theorem tombstoned_at_most_9_after_append_witness:
  "invariant \<lparr>strings_ToLower = ascii_lower, ParseFloat = (\<lambda>s. None), time_Parse = (\<lambda>s. None)\<rparr> NewDict \<and> VInt 1 \<noteq> PtrDeleted
   \<and> fmlookup (store NewDict) (getKey \<lparr>strings_ToLower = ascii_lower, ParseFloat = (\<lambda>s. None), time_Parse = (\<lambda>s. None)\<rparr> NewDict ''a'') = None
   \<and> tombstoned NewDict + (if getKey \<lparr>strings_ToLower = ascii_lower, ParseFloat = (\<lambda>s. None), time_Parse = (\<lambda>s. None)\<rparr> NewDict ''a'' |\<in>| fmdom (store NewDict) then 1 else 0) < 10
   \<and> (\<exists>d'. Set \<lparr>strings_ToLower = ascii_lower, ParseFloat = (\<lambda>s. None), time_Parse = (\<lambda>s. None)\<rparr> NewDict ''a'' (VInt 1) = Some d' \<and> tombstoned d' = 0 \<and> length (items d') = 1)
   \<and> (\<exists>d'. Update \<lparr>strings_ToLower = ascii_lower, ParseFloat = (\<lambda>s. None), time_Parse = (\<lambda>s. None)\<rparr> NewDict ''a'' (VInt 1) = Some d' \<and> tombstoned d' \<le> 9)
   \<and> invariant \<lparr>strings_ToLower = ascii_lower, ParseFloat = (\<lambda>s. None), time_Parse = (\<lambda>s. None)\<rparr> (the (do_calls \<lparr>strings_ToLower = ascii_lower, ParseFloat = (\<lambda>s. None), time_Parse = (\<lambda>s. None)\<rparr> NewDict (replicate 10 (CallSet ''k'' (VInt 1))))) \<and> tombstoned (the (do_calls \<lparr>strings_ToLower = ascii_lower, ParseFloat = (\<lambda>s. None), time_Parse = (\<lambda>s. None)\<rparr> NewDict (replicate 10 (CallSet ''k'' (VInt 1))))) = 9
   \<and> 10 \<le> tombstoned (the (do_calls \<lparr>strings_ToLower = ascii_lower, ParseFloat = (\<lambda>s. None), time_Parse = (\<lambda>s. None)\<rparr> NewDict (replicate 10 (CallSet ''k'' (VInt 1))))) + (if getKey \<lparr>strings_ToLower = ascii_lower, ParseFloat = (\<lambda>s. None), time_Parse = (\<lambda>s. None)\<rparr> (the (do_calls \<lparr>strings_ToLower = ascii_lower, ParseFloat = (\<lambda>s. None), time_Parse = (\<lambda>s. None)\<rparr> NewDict (replicate 10 (CallSet ''k'' (VInt 1))))) ''k'' |\<in>| fmdom (store (the (do_calls \<lparr>strings_ToLower = ascii_lower, ParseFloat = (\<lambda>s. None), time_Parse = (\<lambda>s. None)\<rparr> NewDict (replicate 10 (CallSet ''k'' (VInt 1)))))) then 1 else 0)
   \<and> (\<exists>d'. Set \<lparr>strings_ToLower = ascii_lower, ParseFloat = (\<lambda>s. None), time_Parse = (\<lambda>s. None)\<rparr> (the (do_calls \<lparr>strings_ToLower = ascii_lower, ParseFloat = (\<lambda>s. None), time_Parse = (\<lambda>s. None)\<rparr> NewDict (replicate 10 (CallSet ''k'' (VInt 1))))) ''k'' (VInt 1) = Some d' \<and> tombstoned d' = 0
          \<and> Items d' = [\<lparr>Key = ''k'', Value = VInt 1\<rparr>] \<and> items d' = Items d')
   \<and> Delete \<lparr>strings_ToLower = ascii_lower, ParseFloat = (\<lambda>s. None), time_Parse = (\<lambda>s. None)\<rparr> (the (do_calls \<lparr>strings_ToLower = ascii_lower, ParseFloat = (\<lambda>s. None), time_Parse = (\<lambda>s. None)\<rparr> NewDict (replicate 10 (CallSet ''k'' (VInt 1))))) ''k'' = Some (the (do_calls \<lparr>strings_ToLower = ascii_lower, ParseFloat = (\<lambda>s. None), time_Parse = (\<lambda>s. None)\<rparr> NewDict (replicate 10 (CallSet ''k'' (VInt 1)) @ [CallDelete ''k''])))
   \<and> length (items (the (do_calls \<lparr>strings_ToLower = ascii_lower, ParseFloat = (\<lambda>s. None), time_Parse = (\<lambda>s. None)\<rparr> NewDict (replicate 10 (CallSet ''k'' (VInt 1)) @ [CallDelete ''k''])))) = length (items (the (do_calls \<lparr>strings_ToLower = ascii_lower, ParseFloat = (\<lambda>s. None), time_Parse = (\<lambda>s. None)\<rparr> NewDict (replicate 10 (CallSet ''k'' (VInt 1)))))) \<and> tombstoned (the (do_calls \<lparr>strings_ToLower = ascii_lower, ParseFloat = (\<lambda>s. None), time_Parse = (\<lambda>s. None)\<rparr> NewDict (replicate 10 (CallSet ''k'' (VInt 1)) @ [CallDelete ''k'']))) = 10"
proof -
  have i0: "invariant \<lparr>strings_ToLower = ascii_lower, ParseFloat = (\<lambda>s. None), time_Parse = (\<lambda>s. None)\<rparr> NewDict" by code_simp
  have v: "VInt 1 \<noteq> PtrDeleted" by simp
  have n0: "fmlookup (store NewDict) (getKey \<lparr>strings_ToLower = ascii_lower, ParseFloat = (\<lambda>s. None), time_Parse = (\<lambda>s. None)\<rparr> NewDict ''a'') = None" by code_simp
  have t0: "tombstoned NewDict + (if getKey \<lparr>strings_ToLower = ascii_lower, ParseFloat = (\<lambda>s. None), time_Parse = (\<lambda>s. None)\<rparr> NewDict ''a'' |\<in>| fmdom (store NewDict) then 1 else 0) < 10"
    "tombstoned NewDict + (if getKey \<lparr>strings_ToLower = ascii_lower, ParseFloat = (\<lambda>s. None), time_Parse = (\<lambda>s. None)\<rparr> NewDict ''a'' |\<in>| fmdom (store NewDict) then 1 else 0) = 0"
    "length (items NewDict) + 1 = 1"
    by code_simp+
  have i1: "invariant \<lparr>strings_ToLower = ascii_lower, ParseFloat = (\<lambda>s. None), time_Parse = (\<lambda>s. None)\<rparr> (the (do_calls \<lparr>strings_ToLower = ascii_lower, ParseFloat = (\<lambda>s. None), time_Parse = (\<lambda>s. None)\<rparr> NewDict (replicate 10 (CallSet ''k'' (VInt 1)))))" by code_simp
  have t1: "10 \<le> tombstoned (the (do_calls \<lparr>strings_ToLower = ascii_lower, ParseFloat = (\<lambda>s. None), time_Parse = (\<lambda>s. None)\<rparr> NewDict (replicate 10 (CallSet ''k'' (VInt 1))))) + (if getKey \<lparr>strings_ToLower = ascii_lower, ParseFloat = (\<lambda>s. None), time_Parse = (\<lambda>s. None)\<rparr> (the (do_calls \<lparr>strings_ToLower = ascii_lower, ParseFloat = (\<lambda>s. None), time_Parse = (\<lambda>s. None)\<rparr> NewDict (replicate 10 (CallSet ''k'' (VInt 1))))) ''k'' |\<in>| fmdom (store (the (do_calls \<lparr>strings_ToLower = ascii_lower, ParseFloat = (\<lambda>s. None), time_Parse = (\<lambda>s. None)\<rparr> NewDict (replicate 10 (CallSet ''k'' (VInt 1)))))) then 1 else 0)"
    "tombstoned (the (do_calls \<lparr>strings_ToLower = ascii_lower, ParseFloat = (\<lambda>s. None), time_Parse = (\<lambda>s. None)\<rparr> NewDict (replicate 10 (CallSet ''k'' (VInt 1))))) = 9" by code_simp+
  have f1: "filter (\<lambda>x. getKey \<lparr>strings_ToLower = ascii_lower, ParseFloat = (\<lambda>s. None), time_Parse = (\<lambda>s. None)\<rparr> (the (do_calls \<lparr>strings_ToLower = ascii_lower, ParseFloat = (\<lambda>s. None), time_Parse = (\<lambda>s. None)\<rparr> NewDict (replicate 10 (CallSet ''k'' (VInt 1))))) (Key x) \<noteq> getKey \<lparr>strings_ToLower = ascii_lower, ParseFloat = (\<lambda>s. None), time_Parse = (\<lambda>s. None)\<rparr> (the (do_calls \<lparr>strings_ToLower = ascii_lower, ParseFloat = (\<lambda>s. None), time_Parse = (\<lambda>s. None)\<rparr> NewDict (replicate 10 (CallSet ''k'' (VInt 1))))) ''k'') (Items (the (do_calls \<lparr>strings_ToLower = ascii_lower, ParseFloat = (\<lambda>s. None), time_Parse = (\<lambda>s. None)\<rparr> NewDict (replicate 10 (CallSet ''k'' (VInt 1)))))) @ [\<lparr>Key = ''k'', Value = VInt 1\<rparr>]
      = [\<lparr>Key = ''k'', Value = VInt 1\<rparr>]" by code_simp
  have d1: "Delete \<lparr>strings_ToLower = ascii_lower, ParseFloat = (\<lambda>s. None), time_Parse = (\<lambda>s. None)\<rparr> (the (do_calls \<lparr>strings_ToLower = ascii_lower, ParseFloat = (\<lambda>s. None), time_Parse = (\<lambda>s. None)\<rparr> NewDict (replicate 10 (CallSet ''k'' (VInt 1))))) ''k'' = Some (the (do_calls \<lparr>strings_ToLower = ascii_lower, ParseFloat = (\<lambda>s. None), time_Parse = (\<lambda>s. None)\<rparr> NewDict (replicate 10 (CallSet ''k'' (VInt 1)) @ [CallDelete ''k''])))" by code_simp
  have t2: "tombstoned (the (do_calls \<lparr>strings_ToLower = ascii_lower, ParseFloat = (\<lambda>s. None), time_Parse = (\<lambda>s. None)\<rparr> NewDict (replicate 10 (CallSet ''k'' (VInt 1)) @ [CallDelete ''k'']))) = 10" by code_simp
  note A = tombstoned_at_most_9_after_append[OF i0 v, of "''a''"]
  note B = tombstoned_at_most_9_after_append[OF i1 v, of "''k''"]
  from A t0 have a: "\<exists>d'. Set \<lparr>strings_ToLower = ascii_lower, ParseFloat = (\<lambda>s. None), time_Parse = (\<lambda>s. None)\<rparr> NewDict ''a'' (VInt 1) = Some d' \<and> tombstoned d' = 0 \<and> length (items d') = 1"
    by auto
  from A n0 have b: "\<exists>d'. Update \<lparr>strings_ToLower = ascii_lower, ParseFloat = (\<lambda>s. None), time_Parse = (\<lambda>s. None)\<rparr> NewDict ''a'' (VInt 1) = Some d' \<and> tombstoned d' \<le> 9"
    by blast
  from B t1(1) f1 have c: "\<exists>d'. Set \<lparr>strings_ToLower = ascii_lower, ParseFloat = (\<lambda>s. None), time_Parse = (\<lambda>s. None)\<rparr> (the (do_calls \<lparr>strings_ToLower = ascii_lower, ParseFloat = (\<lambda>s. None), time_Parse = (\<lambda>s. None)\<rparr> NewDict (replicate 10 (CallSet ''k'' (VInt 1))))) ''k'' (VInt 1) = Some d' \<and> tombstoned d' = 0
          \<and> Items d' = [\<lparr>Key = ''k'', Value = VInt 1\<rparr>] \<and> items d' = Items d'"
    by auto
  from B d1 have e: "length (items (the (do_calls \<lparr>strings_ToLower = ascii_lower, ParseFloat = (\<lambda>s. None), time_Parse = (\<lambda>s. None)\<rparr> NewDict (replicate 10 (CallSet ''k'' (VInt 1)) @ [CallDelete ''k''])))) = length (items (the (do_calls \<lparr>strings_ToLower = ascii_lower, ParseFloat = (\<lambda>s. None), time_Parse = (\<lambda>s. None)\<rparr> NewDict (replicate 10 (CallSet ''k'' (VInt 1))))))" by blast
  from i0 n0 t0(1) a b i1 t1 c d1 e t2 show ?thesis by simp
qed

section \<open>C6: setting a key again\<close>

text \<open>
  C6. Setting a key tombstones the entry the index holds for it and appends the new entry
  at the end: among the live items, those whose key normalizes like \<open>k\<close> are gone and the
  new pair is last, so \<open>k\<close> is the last key; hence Set(k, v1); Set(other, v2); Set(k, v) on
  a new store gives the keys [other, k]. The decoder does the same for every pair of
  every document: wherever it reads a key and a value, it inserts them with the internal
  \<^verbatim>\<open>set\<close>, which moves the key to the end, and goes on with the store so obtained. For a
  document that is an object of scalar values, the live items after decoding are those of
  before with each pair of the document moved to the end in turn, so a key that occurs
  again stands where its last occurrence puts it. (The values are any values but the
  tombstone marker, which C10 is about; the decoder never produces the marker.)
\<close>

theorem Set_moves_key_to_end:
  assumes "well_formed L d" and "v \<noteq> PtrDeleted"
  shows "(\<exists>d'. Set L d k v = Some d' \<and> set' L d k v = Some d'
           \<and> Items d' = filter (\<lambda>x. getKey L d (Key x) \<noteq> getKey L d k) (Items d) @ [\<lparr>Key = k, Value = v\<rparr>]
           \<and> Keys d' = filter (\<lambda>x. getKey L d x \<noteq> getKey L d k) (Keys d) @ [k])
       \<and> (k \<noteq> other \<and> v2 \<noteq> PtrDeleted \<longrightarrow>
            map_option Keys (do_calls L NewDict [CallSet k v1, CallSet other v2, CallSet k v])
              = Some [other, k])
       \<and> (More dec \<and> Token dec = (Inr (TString key), dec1) \<and> Token dec1 = (Inr t, dec2)
            \<and> handledelim n L t dec2 h = Returns (Inr w, dec3, h3) \<longrightarrow>
            (\<exists>d1. set' L d key w = Some d1 \<and> well_formed L d1
               \<and> parseobject (Suc n) L d dec h = parseobject n L d1 dec3 h3
               \<and> Items d1 = moved_to_end L d \<lparr>Key = key, Value = w\<rparr> (Items d)
               \<and> Keys d1 = filter (\<lambda>x. getKey L d x \<noteq> getKey L d key) (Keys d) @ [key]))
       \<and> ((\<forall>kt\<in>set kts. scalar_value L (snd kt) \<noteq> None) \<and> length kts < m \<longrightarrow>
            (\<exists>d'. UnmarshalJSON m L d
                 \<lparr>tokens = Delim (CHR ''{'') # flat_tokens kts @ [Delim (CHR ''}'')], at_end = EOF\<rparr> h'
                 = Returns (None, d', \<lparr>tokens = [], at_end = EOF\<rparr>, h')
               \<and> Items d' = fold (moved_to_end L d) (map (pair_item L) kts) (Items d)))"
proof (intro conjI impI)
  obtain d' where d': "set' L d k v = Some d'"
    by (rule well_formed_set'[OF assms(1), of k v])
  from Items_set'[OF assms(1) d'] Keys_set'[OF assms(1) d' assms(2)] assms(2) d'
  show "\<exists>d'. Set L d k v = Some d' \<and> set' L d k v = Some d'
           \<and> Items d' = filter (\<lambda>x. getKey L d (Key x) \<noteq> getKey L d k) (Items d) @ [\<lparr>Key = k, Value = v\<rparr>]
           \<and> Keys d' = filter (\<lambda>x. getKey L d x \<noteq> getKey L d k) (Keys d) @ [k]"
    by (simp add: Set_def)
  show "map_option Keys (do_calls L NewDict [CallSet k v1, CallSet other v2, CallSet k v])
              = Some [other, k]" if "k \<noteq> other \<and> v2 \<noteq> PtrDeleted"
    using that assms(2) by (intro three_sets) simp_all
  show "\<exists>d1. set' L d key w = Some d1 \<and> well_formed L d1
               \<and> parseobject (Suc n) L d dec h = parseobject n L d1 dec3 h3
               \<and> Items d1 = moved_to_end L d \<lparr>Key = key, Value = w\<rparr> (Items d)
               \<and> Keys d1 = filter (\<lambda>x. getKey L d x \<noteq> getKey L d key) (Keys d) @ [key]"
    if "More dec \<and> Token dec = (Inr (TString key), dec1) \<and> Token dec1 = (Inr t, dec2)
            \<and> handledelim n L t dec2 h = Returns (Inr w, dec3, h3)"
  proof -
    from that have "More dec" and "Token dec = (Inr (TString key), dec1)"
      and "Token dec1 = (Inr t, dec2)" and "handledelim n L t dec2 h = Returns (Inr w, dec3, h3)"
      by simp_all
    from parseobject_pair[OF assms(1) this] show ?thesis .
  qed
  show "\<exists>d'. UnmarshalJSON m L d
                 \<lparr>tokens = Delim (CHR ''{'') # flat_tokens kts @ [Delim (CHR ''}'')], at_end = EOF\<rparr> h'
                 = Returns (None, d', \<lparr>tokens = [], at_end = EOF\<rparr>, h')
               \<and> Items d' = fold (moved_to_end L d) (map (pair_item L) kts) (Items d)"
    if "(\<forall>kt\<in>set kts. scalar_value L (snd kt) \<noteq> None) \<and> length kts < m"
  proof -
    from that have "\<forall>kt\<in>set kts. scalar_value L (snd kt) \<noteq> None" and "length kts < m"
      by simp_all
    from UnmarshalJSON_flat[OF assms(1) this] show ?thesis .
  qed
qed

theorem Set_moves_key_to_end_witness:
  "do_calls \<lparr>strings_ToLower = ascii_lower, ParseFloat = (\<lambda>s. None), time_Parse = (\<lambda>s. None)\<rparr> NewDict [CallSet ''k'' (VInt 1), CallSet ''other'' (VInt 2)] = Some \<lparr>items = [\<lparr>Key = ''k'', Value = VInt 1\<rparr>, \<lparr>Key = ''other'', Value = VInt 2\<rparr>], store = fmupd ''other'' 1 (fmupd ''k'' 0 fmempty), case_insensitive = False, default_value = VNil\<rparr>
   \<and> well_formed \<lparr>strings_ToLower = ascii_lower, ParseFloat = (\<lambda>s. None), time_Parse = (\<lambda>s. None)\<rparr> \<lparr>items = [\<lparr>Key = ''k'', Value = VInt 1\<rparr>, \<lparr>Key = ''other'', Value = VInt 2\<rparr>], store = fmupd ''other'' 1 (fmupd ''k'' 0 fmempty), case_insensitive = False, default_value = VNil\<rparr> \<and> VInt 3 \<noteq> PtrDeleted \<and> ''k'' \<noteq> ''other'' \<and> VInt 2 \<noteq> PtrDeleted
   \<and> (\<exists>d'. Set \<lparr>strings_ToLower = ascii_lower, ParseFloat = (\<lambda>s. None), time_Parse = (\<lambda>s. None)\<rparr> \<lparr>items = [\<lparr>Key = ''k'', Value = VInt 1\<rparr>, \<lparr>Key = ''other'', Value = VInt 2\<rparr>], store = fmupd ''other'' 1 (fmupd ''k'' 0 fmempty), case_insensitive = False, default_value = VNil\<rparr> ''k'' (VInt 3) = Some d' \<and> Keys d' = [''other'', ''k''])
   \<and> map_option Keys (do_calls \<lparr>strings_ToLower = ascii_lower, ParseFloat = (\<lambda>s. None), time_Parse = (\<lambda>s. None)\<rparr> NewDict [CallSet ''k'' (VInt 1), CallSet ''other'' (VInt 2), CallSet ''k'' (VInt 3)])
       = Some [''other'', ''k'']
   \<and> well_formed \<lparr>strings_ToLower = ascii_lower, ParseFloat = (\<lambda>s. None), time_Parse = (\<lambda>s. None)\<rparr> \<lparr>items = [\<lparr>Key = ''a'', Value = VUint64 1\<rparr>, \<lparr>Key = ''b'', Value = VUint64 2\<rparr>], store = fmupd ''b'' 1 (fmupd ''a'' 0 fmempty), case_insensitive = False, default_value = VNil\<rparr> \<and> More \<lparr>tokens = [TString ''a'', Number ''3'', Delim (CHR ''}'')], at_end = EOF\<rparr> \<and> Token \<lparr>tokens = [TString ''a'', Number ''3'', Delim (CHR ''}'')], at_end = EOF\<rparr> = (Inr (TString ''a''), \<lparr>tokens = [Number ''3'', Delim (CHR ''}'')], at_end = EOF\<rparr>)
   \<and> Token \<lparr>tokens = [Number ''3'', Delim (CHR ''}'')], at_end = EOF\<rparr> = (Inr (Number ''3''), \<lparr>tokens = [Delim (CHR ''}'')], at_end = EOF\<rparr>)
   \<and> handledelim 1 \<lparr>strings_ToLower = ascii_lower, ParseFloat = (\<lambda>s. None), time_Parse = (\<lambda>s. None)\<rparr> (Number ''3'') \<lparr>tokens = [Delim (CHR ''}'')], at_end = EOF\<rparr> [] = Returns (Inr (VUint64 3), \<lparr>tokens = [Delim (CHR ''}'')], at_end = EOF\<rparr>, [])
   \<and> (\<exists>d1. parseobject (Suc 1) \<lparr>strings_ToLower = ascii_lower, ParseFloat = (\<lambda>s. None), time_Parse = (\<lambda>s. None)\<rparr> \<lparr>items = [\<lparr>Key = ''a'', Value = VUint64 1\<rparr>, \<lparr>Key = ''b'', Value = VUint64 2\<rparr>], store = fmupd ''b'' 1 (fmupd ''a'' 0 fmempty), case_insensitive = False, default_value = VNil\<rparr> \<lparr>tokens = [TString ''a'', Number ''3'', Delim (CHR ''}'')], at_end = EOF\<rparr> [] = parseobject 1 \<lparr>strings_ToLower = ascii_lower, ParseFloat = (\<lambda>s. None), time_Parse = (\<lambda>s. None)\<rparr> d1 \<lparr>tokens = [Delim (CHR ''}'')], at_end = EOF\<rparr> [] \<and> Keys d1 = [''b'', ''a''])
   \<and> well_formed \<lparr>strings_ToLower = ascii_lower, ParseFloat = (\<lambda>s. None), time_Parse = (\<lambda>s. None)\<rparr> NewDict \<and> list_all (\<lambda>kt. scalar_value \<lparr>strings_ToLower = ascii_lower, ParseFloat = (\<lambda>s. None), time_Parse = (\<lambda>s. None)\<rparr> (snd kt) \<noteq> None) [(''a'', Number ''1''), (''b'', Number ''2''), (''a'', Number ''3'')]
   \<and> length [(''a'', Number ''1''), (''b'', Number ''2''), (''a'', Number ''3'')] < 4
   \<and> (\<exists>d'. UnmarshalJSON 4 \<lparr>strings_ToLower = ascii_lower, ParseFloat = (\<lambda>s. None), time_Parse = (\<lambda>s. None)\<rparr> NewDict
          \<lparr>tokens = Delim (CHR ''{'') # flat_tokens [(''a'', Number ''1''), (''b'', Number ''2''), (''a'', Number ''3'')] @ [Delim (CHR ''}'')], at_end = EOF\<rparr> []
          = Returns (None, d', \<lparr>tokens = [], at_end = EOF\<rparr>, [])
        \<and> Items d' = [\<lparr>Key = ''b'', Value = VUint64 2\<rparr>, \<lparr>Key = ''a'', Value = VUint64 3\<rparr>])"
proof -
  have r: "do_calls \<lparr>strings_ToLower = ascii_lower, ParseFloat = (\<lambda>s. None), time_Parse = (\<lambda>s. None)\<rparr> NewDict [CallSet ''k'' (VInt 1), CallSet ''other'' (VInt 2)] = Some \<lparr>items = [\<lparr>Key = ''k'', Value = VInt 1\<rparr>, \<lparr>Key = ''other'', Value = VInt 2\<rparr>], store = fmupd ''other'' 1 (fmupd ''k'' 0 fmempty), case_insensitive = False, default_value = VNil\<rparr>"
    by code_simp
  have w: "well_formed \<lparr>strings_ToLower = ascii_lower, ParseFloat = (\<lambda>s. None), time_Parse = (\<lambda>s. None)\<rparr> \<lparr>items = [\<lparr>Key = ''k'', Value = VInt 1\<rparr>, \<lparr>Key = ''other'', Value = VInt 2\<rparr>], store = fmupd ''other'' 1 (fmupd ''k'' 0 fmempty), case_insensitive = False, default_value = VNil\<rparr>" by code_simp
  have v: "VInt 3 \<noteq> PtrDeleted" by simp
  have f: "filter (\<lambda>x. getKey \<lparr>strings_ToLower = ascii_lower, ParseFloat = (\<lambda>s. None), time_Parse = (\<lambda>s. None)\<rparr> \<lparr>items = [\<lparr>Key = ''k'', Value = VInt 1\<rparr>, \<lparr>Key = ''other'', Value = VInt 2\<rparr>], store = fmupd ''other'' 1 (fmupd ''k'' 0 fmempty), case_insensitive = False, default_value = VNil\<rparr> x \<noteq> getKey \<lparr>strings_ToLower = ascii_lower, ParseFloat = (\<lambda>s. None), time_Parse = (\<lambda>s. None)\<rparr> \<lparr>items = [\<lparr>Key = ''k'', Value = VInt 1\<rparr>, \<lparr>Key = ''other'', Value = VInt 2\<rparr>], store = fmupd ''other'' 1 (fmupd ''k'' 0 fmempty), case_insensitive = False, default_value = VNil\<rparr> ''k'') (Keys \<lparr>items = [\<lparr>Key = ''k'', Value = VInt 1\<rparr>, \<lparr>Key = ''other'', Value = VInt 2\<rparr>], store = fmupd ''other'' 1 (fmupd ''k'' 0 fmempty), case_insensitive = False, default_value = VNil\<rparr>) @ [''k''] = [''other'', ''k'']"
    by code_simp
  note A1 = Set_moves_key_to_end[OF w v, where k = "''k''", THEN conjunct1]
  note A2 = Set_moves_key_to_end[OF w v, where k = "''k''" and other = "''other''"
      and ?v2.0 = "VInt 2" and ?v1.0 = "VInt 1", THEN conjunct2, THEN conjunct1]
  from A1 f have a: "\<exists>d'. Set \<lparr>strings_ToLower = ascii_lower, ParseFloat = (\<lambda>s. None), time_Parse = (\<lambda>s. None)\<rparr> \<lparr>items = [\<lparr>Key = ''k'', Value = VInt 1\<rparr>, \<lparr>Key = ''other'', Value = VInt 2\<rparr>], store = fmupd ''other'' 1 (fmupd ''k'' 0 fmempty), case_insensitive = False, default_value = VNil\<rparr> ''k'' (VInt 3) = Some d' \<and> Keys d' = [''other'', ''k'']"
    by auto
  from A2 have b: "map_option Keys (do_calls \<lparr>strings_ToLower = ascii_lower, ParseFloat = (\<lambda>s. None), time_Parse = (\<lambda>s. None)\<rparr> NewDict [CallSet ''k'' (VInt 1), CallSet ''other'' (VInt 2), CallSet ''k'' (VInt 3)])
       = Some [''other'', ''k'']" by simp
  have w2: "well_formed \<lparr>strings_ToLower = ascii_lower, ParseFloat = (\<lambda>s. None), time_Parse = (\<lambda>s. None)\<rparr> \<lparr>items = [\<lparr>Key = ''a'', Value = VUint64 1\<rparr>, \<lparr>Key = ''b'', Value = VUint64 2\<rparr>], store = fmupd ''b'' 1 (fmupd ''a'' 0 fmempty), case_insensitive = False, default_value = VNil\<rparr>" by code_simp
  have p: "More \<lparr>tokens = [TString ''a'', Number ''3'', Delim (CHR ''}'')], at_end = EOF\<rparr>" "Token \<lparr>tokens = [TString ''a'', Number ''3'', Delim (CHR ''}'')], at_end = EOF\<rparr> = (Inr (TString ''a''), \<lparr>tokens = [Number ''3'', Delim (CHR ''}'')], at_end = EOF\<rparr>)"
    "Token \<lparr>tokens = [Number ''3'', Delim (CHR ''}'')], at_end = EOF\<rparr> = (Inr (Number ''3''), \<lparr>tokens = [Delim (CHR ''}'')], at_end = EOF\<rparr>)"
    "handledelim 1 \<lparr>strings_ToLower = ascii_lower, ParseFloat = (\<lambda>s. None), time_Parse = (\<lambda>s. None)\<rparr> (Number ''3'') \<lparr>tokens = [Delim (CHR ''}'')], at_end = EOF\<rparr> [] = Returns (Inr (VUint64 3), \<lparr>tokens = [Delim (CHR ''}'')], at_end = EOF\<rparr>, [])"
    by code_simp+
  have f2: "filter (\<lambda>x. getKey \<lparr>strings_ToLower = ascii_lower, ParseFloat = (\<lambda>s. None), time_Parse = (\<lambda>s. None)\<rparr> \<lparr>items = [\<lparr>Key = ''a'', Value = VUint64 1\<rparr>, \<lparr>Key = ''b'', Value = VUint64 2\<rparr>], store = fmupd ''b'' 1 (fmupd ''a'' 0 fmempty), case_insensitive = False, default_value = VNil\<rparr> x \<noteq> getKey \<lparr>strings_ToLower = ascii_lower, ParseFloat = (\<lambda>s. None), time_Parse = (\<lambda>s. None)\<rparr> \<lparr>items = [\<lparr>Key = ''a'', Value = VUint64 1\<rparr>, \<lparr>Key = ''b'', Value = VUint64 2\<rparr>], store = fmupd ''b'' 1 (fmupd ''a'' 0 fmempty), case_insensitive = False, default_value = VNil\<rparr> ''a'') (Keys \<lparr>items = [\<lparr>Key = ''a'', Value = VUint64 1\<rparr>, \<lparr>Key = ''b'', Value = VUint64 2\<rparr>], store = fmupd ''b'' 1 (fmupd ''a'' 0 fmempty), case_insensitive = False, default_value = VNil\<rparr>) @ [''a''] = [''b'', ''a'']"
    by code_simp
  note B = Set_moves_key_to_end[OF w2 v, where dec = "\<lparr>tokens = [TString ''a'', Number ''3'', Delim (CHR ''}'')], at_end = EOF\<rparr>" and key = "''a''" and ?dec1.0 = "\<lparr>tokens = [Number ''3'', Delim (CHR ''}'')], at_end = EOF\<rparr>"
      and t = "Number ''3''" and ?dec2.0 = "\<lparr>tokens = [Delim (CHR ''}'')], at_end = EOF\<rparr>" and n = 1 and h = "[]" and w = "VUint64 3"
      and ?dec3.0 = "\<lparr>tokens = [Delim (CHR ''}'')], at_end = EOF\<rparr>" and ?h3.0 = "[]", THEN conjunct2, THEN conjunct2, THEN conjunct1]
  from B p have "\<exists>d1. parseobject (Suc 1) \<lparr>strings_ToLower = ascii_lower, ParseFloat = (\<lambda>s. None), time_Parse = (\<lambda>s. None)\<rparr> \<lparr>items = [\<lparr>Key = ''a'', Value = VUint64 1\<rparr>, \<lparr>Key = ''b'', Value = VUint64 2\<rparr>], store = fmupd ''b'' 1 (fmupd ''a'' 0 fmempty), case_insensitive = False, default_value = VNil\<rparr> \<lparr>tokens = [TString ''a'', Number ''3'', Delim (CHR ''}'')], at_end = EOF\<rparr> [] = parseobject 1 \<lparr>strings_ToLower = ascii_lower, ParseFloat = (\<lambda>s. None), time_Parse = (\<lambda>s. None)\<rparr> d1 \<lparr>tokens = [Delim (CHR ''}'')], at_end = EOF\<rparr> []
      \<and> Keys d1 = filter (\<lambda>x. getKey \<lparr>strings_ToLower = ascii_lower, ParseFloat = (\<lambda>s. None), time_Parse = (\<lambda>s. None)\<rparr> \<lparr>items = [\<lparr>Key = ''a'', Value = VUint64 1\<rparr>, \<lparr>Key = ''b'', Value = VUint64 2\<rparr>], store = fmupd ''b'' 1 (fmupd ''a'' 0 fmempty), case_insensitive = False, default_value = VNil\<rparr> x \<noteq> getKey \<lparr>strings_ToLower = ascii_lower, ParseFloat = (\<lambda>s. None), time_Parse = (\<lambda>s. None)\<rparr> \<lparr>items = [\<lparr>Key = ''a'', Value = VUint64 1\<rparr>, \<lparr>Key = ''b'', Value = VUint64 2\<rparr>], store = fmupd ''b'' 1 (fmupd ''a'' 0 fmempty), case_insensitive = False, default_value = VNil\<rparr> ''a'') (Keys \<lparr>items = [\<lparr>Key = ''a'', Value = VUint64 1\<rparr>, \<lparr>Key = ''b'', Value = VUint64 2\<rparr>], store = fmupd ''b'' 1 (fmupd ''a'' 0 fmempty), case_insensitive = False, default_value = VNil\<rparr>) @ [''a'']"
    by blast
  then have c: "\<exists>d1. parseobject (Suc 1) \<lparr>strings_ToLower = ascii_lower, ParseFloat = (\<lambda>s. None), time_Parse = (\<lambda>s. None)\<rparr> \<lparr>items = [\<lparr>Key = ''a'', Value = VUint64 1\<rparr>, \<lparr>Key = ''b'', Value = VUint64 2\<rparr>], store = fmupd ''b'' 1 (fmupd ''a'' 0 fmempty), case_insensitive = False, default_value = VNil\<rparr> \<lparr>tokens = [TString ''a'', Number ''3'', Delim (CHR ''}'')], at_end = EOF\<rparr> [] = parseobject 1 \<lparr>strings_ToLower = ascii_lower, ParseFloat = (\<lambda>s. None), time_Parse = (\<lambda>s. None)\<rparr> d1 \<lparr>tokens = [Delim (CHR ''}'')], at_end = EOF\<rparr> [] \<and> Keys d1 = [''b'', ''a'']"
    unfolding f2 .
  have w3: "well_formed \<lparr>strings_ToLower = ascii_lower, ParseFloat = (\<lambda>s. None), time_Parse = (\<lambda>s. None)\<rparr> NewDict" by code_simp
  have s: "\<forall>kt\<in>set [(''a'', Number ''1''), (''b'', Number ''2''), (''a'', Number ''3'')]. scalar_value \<lparr>strings_ToLower = ascii_lower, ParseFloat = (\<lambda>s. None), time_Parse = (\<lambda>s. None)\<rparr> (snd kt) \<noteq> None" by code_simp
  have s': "list_all (\<lambda>kt. scalar_value \<lparr>strings_ToLower = ascii_lower, ParseFloat = (\<lambda>s. None), time_Parse = (\<lambda>s. None)\<rparr> (snd kt) \<noteq> None) [(''a'', Number ''1''), (''b'', Number ''2''), (''a'', Number ''3'')]" by code_simp
  have l: "length [(''a'', Number ''1''), (''b'', Number ''2''), (''a'', Number ''3'')] < 4" by simp
  have f3: "fold (moved_to_end \<lparr>strings_ToLower = ascii_lower, ParseFloat = (\<lambda>s. None), time_Parse = (\<lambda>s. None)\<rparr> NewDict) (map (pair_item \<lparr>strings_ToLower = ascii_lower, ParseFloat = (\<lambda>s. None), time_Parse = (\<lambda>s. None)\<rparr>) [(''a'', Number ''1''), (''b'', Number ''2''), (''a'', Number ''3'')]) (Items NewDict)
      = [\<lparr>Key = ''b'', Value = VUint64 2\<rparr>, \<lparr>Key = ''a'', Value = VUint64 3\<rparr>]"
    by code_simp
  note C = Set_moves_key_to_end[OF w3 v, where kts = "[(''a'', Number ''1''), (''b'', Number ''2''), (''a'', Number ''3'')]" and m = 4 and h' = "[]",
      THEN conjunct2, THEN conjunct2, THEN conjunct2]
  from C s l have "\<exists>d'. UnmarshalJSON 4 \<lparr>strings_ToLower = ascii_lower, ParseFloat = (\<lambda>s. None), time_Parse = (\<lambda>s. None)\<rparr> NewDict
          \<lparr>tokens = Delim (CHR ''{'') # flat_tokens [(''a'', Number ''1''), (''b'', Number ''2''), (''a'', Number ''3'')] @ [Delim (CHR ''}'')], at_end = EOF\<rparr> []
          = Returns (None, d', \<lparr>tokens = [], at_end = EOF\<rparr>, [])
        \<and> Items d' = fold (moved_to_end \<lparr>strings_ToLower = ascii_lower, ParseFloat = (\<lambda>s. None), time_Parse = (\<lambda>s. None)\<rparr> NewDict) (map (pair_item \<lparr>strings_ToLower = ascii_lower, ParseFloat = (\<lambda>s. None), time_Parse = (\<lambda>s. None)\<rparr>) [(''a'', Number ''1''), (''b'', Number ''2''), (''a'', Number ''3'')]) (Items NewDict)"
    by blast
  then have e: "\<exists>d'. UnmarshalJSON 4 \<lparr>strings_ToLower = ascii_lower, ParseFloat = (\<lambda>s. None), time_Parse = (\<lambda>s. None)\<rparr> NewDict
          \<lparr>tokens = Delim (CHR ''{'') # flat_tokens [(''a'', Number ''1''), (''b'', Number ''2''), (''a'', Number ''3'')] @ [Delim (CHR ''}'')], at_end = EOF\<rparr> []
          = Returns (None, d', \<lparr>tokens = [], at_end = EOF\<rparr>, [])
        \<and> Items d' = [\<lparr>Key = ''b'', Value = VUint64 2\<rparr>, \<lparr>Key = ''a'', Value = VUint64 3\<rparr>]"
    unfolding f3 .
  from r w v a b w2 p c w3 s' l e show ?thesis by (simp only: simp_thms) simp
qed

section \<open>C7: numbers\<close>

text \<open>
  C7. A numeric token is tried as an unsigned 64-bit integer, then as a signed one, then
  as a float, and the first parse that succeeds gives the value; if none does, the
  token is an error. "18446744073709551615" decodes as an unsigned integer, "-5" as a
  signed one, and "3.14", which the float parser of the library accepts, as a float.
\<close>

theorem handledelim_number_order:
  "(snd (ParseUint s) = None \<longrightarrow>
      handledelim (Suc n) L (Number s) dec h = Returns (Inr (VUint64 (fst (ParseUint s))), dec, h))
 \<and> (snd (ParseUint s) \<noteq> None \<and> snd (ParseInt s) = None \<longrightarrow>
      handledelim (Suc n) L (Number s) dec h = Returns (Inr (VInt64 (fst (ParseInt s))), dec, h))
 \<and> (snd (ParseUint s) \<noteq> None \<and> snd (ParseInt s) \<noteq> None \<longrightarrow>
      handledelim (Suc n) L (Number s) dec h =
        Returns ((case ParseFloat L s of Some f \<Rightarrow> Inr (VFloat64 f) | None \<Rightarrow> Inl ErrUnexpectedToken),
                 dec, h))
 \<and> handledelim (Suc n) L (Number ''18446744073709551615'') dec h
      = Returns (Inr (VUint64 18446744073709551615), dec, h)
 \<and> handledelim (Suc n) L (Number ''-5'') dec h = Returns (Inr (VInt64 (- 5)), dec, h)
 \<and> (ParseFloat L ''3.14'' = Some f \<longrightarrow>
      handledelim (Suc n) L (Number ''3.14'') dec h = Returns (Inr (VFloat64 f), dec, h))"
proof (intro conjI impI)
  show "handledelim (Suc n) L (Number s) dec h = Returns (Inr (VUint64 (fst (ParseUint s))), dec, h)"
    if "snd (ParseUint s) = None"
    using that by (cases "ParseUint s") (simp add: handle_number_def)
  show "handledelim (Suc n) L (Number s) dec h = Returns (Inr (VInt64 (fst (ParseInt s))), dec, h)"
    if "snd (ParseUint s) \<noteq> None \<and> snd (ParseInt s) = None"
    using that by (cases "ParseUint s"; cases "ParseInt s") (auto simp: handle_number_def)
  show "handledelim (Suc n) L (Number s) dec h =
        Returns ((case ParseFloat L s of Some f \<Rightarrow> Inr (VFloat64 f) | None \<Rightarrow> Inl ErrUnexpectedToken),
                 dec, h)"
    if "snd (ParseUint s) \<noteq> None \<and> snd (ParseInt s) \<noteq> None"
    using that by (cases "ParseUint s"; cases "ParseInt s") (auto simp: handle_number_def)
  show "handledelim (Suc n) L (Number ''18446744073709551615'') dec h
      = Returns (Inr (VUint64 18446744073709551615), dec, h)"
    by (simp add: handle_number_def ParseUint_max)
  show "handledelim (Suc n) L (Number ''-5'') dec h = Returns (Inr (VInt64 (- 5)), dec, h)"
    using ParseUint_neg5 by (cases "ParseUint ''-5''") (simp add: handle_number_def ParseInt_neg5)
  show "handledelim (Suc n) L (Number ''3.14'') dec h = Returns (Inr (VFloat64 f), dec, h)"
    if "ParseFloat L ''3.14'' = Some f"
    using ParseUint_pi ParseInt_pi that
    by (cases "ParseUint ''3.14''"; cases "ParseInt ''3.14''") (simp add: handle_number_def)
qed

theorem handledelim_number_order_witness:
  "snd (ParseUint ''42'') = None
   \<and> handledelim 1 \<lparr>strings_ToLower = ascii_lower, ParseFloat = (\<lambda>s. if s = ''3.14'' then Some (Float64 0x40091EB851EB851F) else None), time_Parse = (\<lambda>s. if s = ''2023-01-02T03:04:05Z'' then Some (Time 1672628645000000000) else None)\<rparr> (Number ''42'') \<lparr>tokens = [], at_end = EOF\<rparr> [] = Returns (Inr (VUint64 42), \<lparr>tokens = [], at_end = EOF\<rparr>, [])
   \<and> snd (ParseUint ''-5'') \<noteq> None \<and> snd (ParseInt ''-5'') = None
   \<and> handledelim 1 \<lparr>strings_ToLower = ascii_lower, ParseFloat = (\<lambda>s. if s = ''3.14'' then Some (Float64 0x40091EB851EB851F) else None), time_Parse = (\<lambda>s. if s = ''2023-01-02T03:04:05Z'' then Some (Time 1672628645000000000) else None)\<rparr> (Number ''-5'') \<lparr>tokens = [], at_end = EOF\<rparr> [] = Returns (Inr (VInt64 (- 5)), \<lparr>tokens = [], at_end = EOF\<rparr>, [])
   \<and> snd (ParseUint ''3.14'') \<noteq> None \<and> snd (ParseInt ''3.14'') \<noteq> None
   \<and> ParseFloat \<lparr>strings_ToLower = ascii_lower, ParseFloat = (\<lambda>s. if s = ''3.14'' then Some (Float64 0x40091EB851EB851F) else None), time_Parse = (\<lambda>s. if s = ''2023-01-02T03:04:05Z'' then Some (Time 1672628645000000000) else None)\<rparr> ''3.14'' = Some (Float64 0x40091EB851EB851F)
   \<and> handledelim 1 \<lparr>strings_ToLower = ascii_lower, ParseFloat = (\<lambda>s. if s = ''3.14'' then Some (Float64 0x40091EB851EB851F) else None), time_Parse = (\<lambda>s. if s = ''2023-01-02T03:04:05Z'' then Some (Time 1672628645000000000) else None)\<rparr> (Number ''3.14'') \<lparr>tokens = [], at_end = EOF\<rparr> [] = Returns (Inr (VFloat64 (Float64 0x40091EB851EB851F)), \<lparr>tokens = [], at_end = EOF\<rparr>, [])
   \<and> handledelim 1 \<lparr>strings_ToLower = ascii_lower, ParseFloat = (\<lambda>s. if s = ''3.14'' then Some (Float64 0x40091EB851EB851F) else None), time_Parse = (\<lambda>s. if s = ''2023-01-02T03:04:05Z'' then Some (Time 1672628645000000000) else None)\<rparr> (Number ''18446744073709551615'') \<lparr>tokens = [], at_end = EOF\<rparr> []
       = Returns (Inr (VUint64 18446744073709551615), \<lparr>tokens = [], at_end = EOF\<rparr>, [])
   \<and> handledelim 1 \<lparr>strings_ToLower = ascii_lower, ParseFloat = (\<lambda>s. if s = ''3.14'' then Some (Float64 0x40091EB851EB851F) else None), time_Parse = (\<lambda>s. if s = ''2023-01-02T03:04:05Z'' then Some (Time 1672628645000000000) else None)\<rparr> (Number ''1e400'') \<lparr>tokens = [], at_end = EOF\<rparr> [] = Returns (Inl ErrUnexpectedToken, \<lparr>tokens = [], at_end = EOF\<rparr>, [])"
proof -
  have u: "snd (ParseUint ''42'') = None" "fst (ParseUint ''42'') = 42" by code_simp+
  have i: "snd (ParseUint ''-5'') \<noteq> None" "snd (ParseInt ''-5'') = None" by code_simp+
  have f: "snd (ParseUint ''3.14'') \<noteq> None" "snd (ParseInt ''3.14'') \<noteq> None" by code_simp+
  have e: "snd (ParseUint ''1e400'') \<noteq> None" "snd (ParseInt ''1e400'') \<noteq> None" by code_simp+
  have p: "ParseFloat \<lparr>strings_ToLower = ascii_lower, ParseFloat = (\<lambda>s. if s = ''3.14'' then Some (Float64 0x40091EB851EB851F) else None), time_Parse = (\<lambda>s. if s = ''2023-01-02T03:04:05Z'' then Some (Time 1672628645000000000) else None)\<rparr> ''3.14'' = Some (Float64 0x40091EB851EB851F)" by simp
  have q: "ParseFloat \<lparr>strings_ToLower = ascii_lower, ParseFloat = (\<lambda>s. if s = ''3.14'' then Some (Float64 0x40091EB851EB851F) else None), time_Parse = (\<lambda>s. if s = ''2023-01-02T03:04:05Z'' then Some (Time 1672628645000000000) else None)\<rparr> ''1e400'' = None" by simp
  note A = handledelim_number_order[where n = 0 and L = "\<lparr>strings_ToLower = ascii_lower, ParseFloat = (\<lambda>s. if s = ''3.14'' then Some (Float64 0x40091EB851EB851F) else None), time_Parse = (\<lambda>s. if s = ''2023-01-02T03:04:05Z'' then Some (Time 1672628645000000000) else None)\<rparr>" and dec = "\<lparr>tokens = [], at_end = EOF\<rparr>" and h = "[]"]
  from A[where s = "''42''"] u
  have a: "handledelim 1 \<lparr>strings_ToLower = ascii_lower, ParseFloat = (\<lambda>s. if s = ''3.14'' then Some (Float64 0x40091EB851EB851F) else None), time_Parse = (\<lambda>s. if s = ''2023-01-02T03:04:05Z'' then Some (Time 1672628645000000000) else None)\<rparr> (Number ''42'') \<lparr>tokens = [], at_end = EOF\<rparr> [] = Returns (Inr (VUint64 42), \<lparr>tokens = [], at_end = EOF\<rparr>, [])"
    by simp
  from A[where s = "''-5''"]
  have b: "handledelim 1 \<lparr>strings_ToLower = ascii_lower, ParseFloat = (\<lambda>s. if s = ''3.14'' then Some (Float64 0x40091EB851EB851F) else None), time_Parse = (\<lambda>s. if s = ''2023-01-02T03:04:05Z'' then Some (Time 1672628645000000000) else None)\<rparr> (Number ''-5'') \<lparr>tokens = [], at_end = EOF\<rparr> [] = Returns (Inr (VInt64 (- 5)), \<lparr>tokens = [], at_end = EOF\<rparr>, [])"
    by simp
  from A[where s = "''3.14''" and f = "Float64 0x40091EB851EB851F"] p
  have c: "handledelim 1 \<lparr>strings_ToLower = ascii_lower, ParseFloat = (\<lambda>s. if s = ''3.14'' then Some (Float64 0x40091EB851EB851F) else None), time_Parse = (\<lambda>s. if s = ''2023-01-02T03:04:05Z'' then Some (Time 1672628645000000000) else None)\<rparr> (Number ''3.14'') \<lparr>tokens = [], at_end = EOF\<rparr> [] = Returns (Inr (VFloat64 (Float64 0x40091EB851EB851F)), \<lparr>tokens = [], at_end = EOF\<rparr>, [])"
    by simp
  from A[where s = "''42''"]
  have d: "handledelim 1 \<lparr>strings_ToLower = ascii_lower, ParseFloat = (\<lambda>s. if s = ''3.14'' then Some (Float64 0x40091EB851EB851F) else None), time_Parse = (\<lambda>s. if s = ''2023-01-02T03:04:05Z'' then Some (Time 1672628645000000000) else None)\<rparr> (Number ''18446744073709551615'') \<lparr>tokens = [], at_end = EOF\<rparr> []
       = Returns (Inr (VUint64 18446744073709551615), \<lparr>tokens = [], at_end = EOF\<rparr>, [])"
    by simp
  from A[where s = "''1e400''"] e q
  have g: "handledelim 1 \<lparr>strings_ToLower = ascii_lower, ParseFloat = (\<lambda>s. if s = ''3.14'' then Some (Float64 0x40091EB851EB851F) else None), time_Parse = (\<lambda>s. if s = ''2023-01-02T03:04:05Z'' then Some (Time 1672628645000000000) else None)\<rparr> (Number ''1e400'') \<lparr>tokens = [], at_end = EOF\<rparr> [] = Returns (Inl ErrUnexpectedToken, \<lparr>tokens = [], at_end = EOF\<rparr>, [])"
    by simp
  from u(1) i f p a b c d g show ?thesis by simp
qed

section \<open>C8: timestamps\<close>

text \<open>
  C8. A string token of at least 20 bytes whose byte at offset 10 is "T" is given to the
  RFC3339 parser: if that succeeds the value is the timestamp, if it fails the value is
  the string itself; any other string is decoded as the string, whatever the parser
  would say. The value reaches the store: decoding the object with the one pair "t": s
  gives a store where Get("t") hits with that value.
\<close>

theorem handledelim_timestamp:
  "(20 \<le> length t \<and> t ! 10 = CHR ''T'' \<and> time_Parse L t = Some p \<longrightarrow>
      handledelim (Suc n) L (TString t) dec h = Returns (Inr (VTime p), dec, h))
 \<and> (20 \<le> length t \<and> t ! 10 = CHR ''T'' \<and> time_Parse L t = None \<longrightarrow>
      handledelim (Suc n) L (TString t) dec h = Returns (Inr (VString t), dec, h))
 \<and> (\<not> (20 \<le> length t \<and> t ! 10 = CHR ''T'') \<longrightarrow>
      handledelim (Suc n) L (TString t) dec h = Returns (Inr (VString t), dec, h))
 \<and> (\<exists>d'. UnmarshalJSON (Suc (Suc n)) L NewDict
       \<lparr>tokens = [Delim (CHR ''{''), TString ''t'', TString t, Delim (CHR ''}'')], at_end = EOF\<rparr> h
          = Returns (None, d', \<lparr>tokens = [], at_end = EOF\<rparr>, h)
        \<and> Get L d' ''t'' = Some (case handledelim (Suc n) L (TString t) dec h of
                                  Returns (Inr v, _) \<Rightarrow> v | _ \<Rightarrow> VNil, True))"
  using decode_one_string[of n L t h] by (auto simp: handle_string_def)

theorem handledelim_timestamp_witness:
  "20 \<le> length ''2023-01-02T03:04:05Z'' \<and> ''2023-01-02T03:04:05Z'' ! 10 = CHR ''T''
   \<and> time_Parse \<lparr>strings_ToLower = ascii_lower, ParseFloat = (\<lambda>s. if s = ''3.14'' then Some (Float64 0x40091EB851EB851F) else None), time_Parse = (\<lambda>s. if s = ''2023-01-02T03:04:05Z'' then Some (Time 1672628645000000000) else None)\<rparr> ''2023-01-02T03:04:05Z'' = Some (Time 1672628645000000000)
   \<and> handledelim 1 \<lparr>strings_ToLower = ascii_lower, ParseFloat = (\<lambda>s. if s = ''3.14'' then Some (Float64 0x40091EB851EB851F) else None), time_Parse = (\<lambda>s. if s = ''2023-01-02T03:04:05Z'' then Some (Time 1672628645000000000) else None)\<rparr> (TString ''2023-01-02T03:04:05Z'') \<lparr>tokens = [], at_end = EOF\<rparr> []
       = Returns (Inr (VTime (Time 1672628645000000000)), \<lparr>tokens = [], at_end = EOF\<rparr>, [])
   \<and> 20 \<le> length ''2023-13-45T99:99:99Z'' \<and> ''2023-13-45T99:99:99Z'' ! 10 = CHR ''T''
   \<and> time_Parse \<lparr>strings_ToLower = ascii_lower, ParseFloat = (\<lambda>s. if s = ''3.14'' then Some (Float64 0x40091EB851EB851F) else None), time_Parse = (\<lambda>s. if s = ''2023-01-02T03:04:05Z'' then Some (Time 1672628645000000000) else None)\<rparr> ''2023-13-45T99:99:99Z'' = None
   \<and> handledelim 1 \<lparr>strings_ToLower = ascii_lower, ParseFloat = (\<lambda>s. if s = ''3.14'' then Some (Float64 0x40091EB851EB851F) else None), time_Parse = (\<lambda>s. if s = ''2023-01-02T03:04:05Z'' then Some (Time 1672628645000000000) else None)\<rparr> (TString ''2023-13-45T99:99:99Z'') \<lparr>tokens = [], at_end = EOF\<rparr> []
       = Returns (Inr (VString ''2023-13-45T99:99:99Z''), \<lparr>tokens = [], at_end = EOF\<rparr>, [])
   \<and> \<not> (20 \<le> length ''2023-01-02'' \<and> ''2023-01-02'' ! 10 = CHR ''T'')
   \<and> handledelim 1 \<lparr>strings_ToLower = ascii_lower, ParseFloat = (\<lambda>s. if s = ''3.14'' then Some (Float64 0x40091EB851EB851F) else None), time_Parse = (\<lambda>s. if s = ''2023-01-02T03:04:05Z'' then Some (Time 1672628645000000000) else None)\<rparr> (TString ''2023-01-02'') \<lparr>tokens = [], at_end = EOF\<rparr> [] = Returns (Inr (VString ''2023-01-02''), \<lparr>tokens = [], at_end = EOF\<rparr>, [])"
proof -
  have a: "20 \<le> length ''2023-01-02T03:04:05Z'' \<and> ''2023-01-02T03:04:05Z'' ! 10 = CHR ''T''
     \<and> time_Parse \<lparr>strings_ToLower = ascii_lower, ParseFloat = (\<lambda>s. if s = ''3.14'' then Some (Float64 0x40091EB851EB851F) else None), time_Parse = (\<lambda>s. if s = ''2023-01-02T03:04:05Z'' then Some (Time 1672628645000000000) else None)\<rparr> ''2023-01-02T03:04:05Z'' = Some (Time 1672628645000000000)" by simp
  have b: "20 \<le> length ''2023-13-45T99:99:99Z'' \<and> ''2023-13-45T99:99:99Z'' ! 10 = CHR ''T''
     \<and> time_Parse \<lparr>strings_ToLower = ascii_lower, ParseFloat = (\<lambda>s. if s = ''3.14'' then Some (Float64 0x40091EB851EB851F) else None), time_Parse = (\<lambda>s. if s = ''2023-01-02T03:04:05Z'' then Some (Time 1672628645000000000) else None)\<rparr> ''2023-13-45T99:99:99Z'' = None" by simp
  have c: "\<not> (20 \<le> length ''2023-01-02'' \<and> ''2023-01-02'' ! 10 = CHR ''T'')" by simp
  note A = handledelim_timestamp[where n = 0 and L = "\<lparr>strings_ToLower = ascii_lower, ParseFloat = (\<lambda>s. if s = ''3.14'' then Some (Float64 0x40091EB851EB851F) else None), time_Parse = (\<lambda>s. if s = ''2023-01-02T03:04:05Z'' then Some (Time 1672628645000000000) else None)\<rparr>" and dec = "\<lparr>tokens = [], at_end = EOF\<rparr>" and h = "[]"]
  from A[where t = "''2023-01-02T03:04:05Z''" and p = "Time 1672628645000000000"] a
  have a': "handledelim 1 \<lparr>strings_ToLower = ascii_lower, ParseFloat = (\<lambda>s. if s = ''3.14'' then Some (Float64 0x40091EB851EB851F) else None), time_Parse = (\<lambda>s. if s = ''2023-01-02T03:04:05Z'' then Some (Time 1672628645000000000) else None)\<rparr> (TString ''2023-01-02T03:04:05Z'') \<lparr>tokens = [], at_end = EOF\<rparr> []
       = Returns (Inr (VTime (Time 1672628645000000000)), \<lparr>tokens = [], at_end = EOF\<rparr>, [])" by simp
  from A[where t = "''2023-13-45T99:99:99Z''"] b
  have b': "handledelim 1 \<lparr>strings_ToLower = ascii_lower, ParseFloat = (\<lambda>s. if s = ''3.14'' then Some (Float64 0x40091EB851EB851F) else None), time_Parse = (\<lambda>s. if s = ''2023-01-02T03:04:05Z'' then Some (Time 1672628645000000000) else None)\<rparr> (TString ''2023-13-45T99:99:99Z'') \<lparr>tokens = [], at_end = EOF\<rparr> []
       = Returns (Inr (VString ''2023-13-45T99:99:99Z''), \<lparr>tokens = [], at_end = EOF\<rparr>, [])" by simp
  from A[where t = "''2023-01-02''"] c
  have c': "handledelim 1 \<lparr>strings_ToLower = ascii_lower, ParseFloat = (\<lambda>s. if s = ''3.14'' then Some (Float64 0x40091EB851EB851F) else None), time_Parse = (\<lambda>s. if s = ''2023-01-02T03:04:05Z'' then Some (Time 1672628645000000000) else None)\<rparr> (TString ''2023-01-02'') \<lparr>tokens = [], at_end = EOF\<rparr> [] = Returns (Inr (VString ''2023-01-02''), \<lparr>tokens = [], at_end = EOF\<rparr>, [])"
    by simp
  from a b c a' b' c' show ?thesis by simp
qed

section \<open>C9: a store that contains itself\<close>

text \<open>
  C9. Encoding returns whenever the marshaler returns for the keys and for the values
  other than the store itself: the marshaler is never asked for a value that is the
  encoding store, so a store that holds itself as a direct value is encoded without
  recursion. The output is built from the pairs whose value is not the store itself
  (\<open>encode_pair\<close> for each of them, in order); the self-referencing pair is left out.
  There is no error result: \<^verbatim>\<open>MarshalJSON\<close> returns \<^verbatim>\<open>nil\<close> as its error on every path.
\<close>

theorem MarshalJSON_skips_self:
  assumes "\<forall>item\<in>set (Items d). jm (VString (Key item)) \<noteq> NoReturn
             \<and> (Value item \<noteq> VDict self \<longrightarrow> jm (Value item) \<noteq> NoReturn)"
  shows "MarshalJSON jm self d
       = Some ((if items d \<noteq> []
                then butlast (''{'' @ concat (map (encode_pair jm) (filter (\<lambda>i. Value i \<noteq> VDict self) (Items d))))
                else ''{'' @ concat (map (encode_pair jm) (filter (\<lambda>i. Value i \<noteq> VDict self) (Items d))))
               @ ''}'')"
  using marshal_loop_spec[OF assms, of "''{''"]
  by (simp add: MarshalJSON_def butlast_conv_take)

theorem MarshalJSON_skips_self_witness:
  "do_calls \<lparr>strings_ToLower = ascii_lower, ParseFloat = (\<lambda>s. None), time_Parse = (\<lambda>s. None)\<rparr> NewDict [CallSet ''a'' (VInt 1), CallSet ''self'' (VDict 7)] = Some \<lparr>items = [\<lparr>Key = ''a'', Value = VInt 1\<rparr>, \<lparr>Key = ''self'', Value = VDict 7\<rparr>], store = fmupd ''self'' 1 (fmupd ''a'' 0 fmempty), case_insensitive = False, default_value = VNil\<rparr>
   \<and> (\<lambda>v. case v of VString s \<Rightarrow> Bytes (CHR 0x22 # s @ [CHR 0x22]) | VInt i \<Rightarrow> Bytes ''1'' | VDict a \<Rightarrow> NoReturn | _ \<Rightarrow> MarshalError) (VDict 7) = NoReturn
   \<and> list_all (\<lambda>item. (\<lambda>v. case v of VString s \<Rightarrow> Bytes (CHR 0x22 # s @ [CHR 0x22]) | VInt i \<Rightarrow> Bytes ''1'' | VDict a \<Rightarrow> NoReturn | _ \<Rightarrow> MarshalError) (VString (Key item)) \<noteq> NoReturn) (Items \<lparr>items = [\<lparr>Key = ''a'', Value = VInt 1\<rparr>, \<lparr>Key = ''self'', Value = VDict 7\<rparr>], store = fmupd ''self'' 1 (fmupd ''a'' 0 fmempty), case_insensitive = False, default_value = VNil\<rparr>)
   \<and> list_all (\<lambda>item. Value item = VDict 7 \<or> (\<lambda>v. case v of VString s \<Rightarrow> Bytes (CHR 0x22 # s @ [CHR 0x22]) | VInt i \<Rightarrow> Bytes ''1'' | VDict a \<Rightarrow> NoReturn | _ \<Rightarrow> MarshalError) (Value item) \<noteq> NoReturn) (Items \<lparr>items = [\<lparr>Key = ''a'', Value = VInt 1\<rparr>, \<lparr>Key = ''self'', Value = VDict 7\<rparr>], store = fmupd ''self'' 1 (fmupd ''a'' 0 fmempty), case_insensitive = False, default_value = VNil\<rparr>)
   \<and> MarshalJSON (\<lambda>v. case v of VString s \<Rightarrow> Bytes (CHR 0x22 # s @ [CHR 0x22]) | VInt i \<Rightarrow> Bytes ''1'' | VDict a \<Rightarrow> NoReturn | _ \<Rightarrow> MarshalError) 7 \<lparr>items = [\<lparr>Key = ''a'', Value = VInt 1\<rparr>, \<lparr>Key = ''self'', Value = VDict 7\<rparr>], store = fmupd ''self'' 1 (fmupd ''a'' 0 fmempty), case_insensitive = False, default_value = VNil\<rparr> = Some [CHR ''{'', CHR 0x22, CHR ''a'', CHR 0x22, CHR '':'', CHR ''1'', CHR ''}'']"
proof -
  have r: "do_calls \<lparr>strings_ToLower = ascii_lower, ParseFloat = (\<lambda>s. None), time_Parse = (\<lambda>s. None)\<rparr> NewDict [CallSet ''a'' (VInt 1), CallSet ''self'' (VDict 7)] = Some \<lparr>items = [\<lparr>Key = ''a'', Value = VInt 1\<rparr>, \<lparr>Key = ''self'', Value = VDict 7\<rparr>], store = fmupd ''self'' 1 (fmupd ''a'' 0 fmempty), case_insensitive = False, default_value = VNil\<rparr>"
    by code_simp
  have n: "(\<lambda>v. case v of VString s \<Rightarrow> Bytes (CHR 0x22 # s @ [CHR 0x22]) | VInt i \<Rightarrow> Bytes ''1'' | VDict a \<Rightarrow> NoReturn | _ \<Rightarrow> MarshalError) (VDict 7) = NoReturn" by simp
  have i: "Items \<lparr>items = [\<lparr>Key = ''a'', Value = VInt 1\<rparr>, \<lparr>Key = ''self'', Value = VDict 7\<rparr>], store = fmupd ''self'' 1 (fmupd ''a'' 0 fmempty), case_insensitive = False, default_value = VNil\<rparr> = [\<lparr>Key = ''a'', Value = VInt 1\<rparr>, \<lparr>Key = ''self'', Value = VDict 7\<rparr>]"
    by (simp add: Items_def IsDeleted_def)
  have h: "\<forall>item\<in>set (Items \<lparr>items = [\<lparr>Key = ''a'', Value = VInt 1\<rparr>, \<lparr>Key = ''self'', Value = VDict 7\<rparr>], store = fmupd ''self'' 1 (fmupd ''a'' 0 fmempty), case_insensitive = False, default_value = VNil\<rparr>). (\<lambda>v. case v of VString s \<Rightarrow> Bytes (CHR 0x22 # s @ [CHR 0x22]) | VInt i \<Rightarrow> Bytes ''1'' | VDict a \<Rightarrow> NoReturn | _ \<Rightarrow> MarshalError) (VString (Key item)) \<noteq> NoReturn
             \<and> (Value item \<noteq> VDict 7 \<longrightarrow> (\<lambda>v. case v of VString s \<Rightarrow> Bytes (CHR 0x22 # s @ [CHR 0x22]) | VInt i \<Rightarrow> Bytes ''1'' | VDict a \<Rightarrow> NoReturn | _ \<Rightarrow> MarshalError) (Value item) \<noteq> NoReturn)"
    unfolding i by simp
  have m: "MarshalJSON (\<lambda>v. case v of VString s \<Rightarrow> Bytes (CHR 0x22 # s @ [CHR 0x22]) | VInt i \<Rightarrow> Bytes ''1'' | VDict a \<Rightarrow> NoReturn | _ \<Rightarrow> MarshalError) 7 \<lparr>items = [\<lparr>Key = ''a'', Value = VInt 1\<rparr>, \<lparr>Key = ''self'', Value = VDict 7\<rparr>], store = fmupd ''self'' 1 (fmupd ''a'' 0 fmempty), case_insensitive = False, default_value = VNil\<rparr> = Some [CHR ''{'', CHR 0x22, CHR ''a'', CHR 0x22, CHR '':'', CHR ''1'', CHR ''}'']"
    unfolding MarshalJSON_skips_self[OF h] by code_simp
  from r n m show ?thesis unfolding i by simp
qed

section \<open>C10: storing the tombstone marker\<close>

text \<open>
  C10, as stated, fails: after Set(k, &Deleted), Get(k) does not always hit and Len does
  not always count the key. When that Set finds 10 tombstones outstanding it compacts,
  and compaction drops the new entry with its index entry: after ten Sets of "k" and
  Set("k", &Deleted) the store is empty, Get("k") misses and Len is 0.
\<close>

theorem stored_marker_dropped_by_compaction:
  "do { d \<leftarrow> do_calls \<lparr>strings_ToLower = ascii_lower, ParseFloat = (\<lambda>s. None), time_Parse = (\<lambda>s. None)\<rparr> NewDict (replicate 10 (CallSet ''k'' (VInt 1)) @ [CallSet ''k'' PtrDeleted]);
        Some (Get \<lparr>strings_ToLower = ascii_lower, ParseFloat = (\<lambda>s. None), time_Parse = (\<lambda>s. None)\<rparr> d ''k'', Len d, items d) }
   = Some (Some (VNil, False), 0, [])"
  by code_simp

text \<open>
  C10, amended. After Set(k, &Deleted) iteration omits \<open>k\<close>: the live items are those of
  before whose key does not normalize like \<open>k\<close>, so Keys, Items and Values have no entry
  for it. If that Set does not compact (fewer than 10 tombstones outstanding after the
  append, counting a replaced entry), Get(k) returns the marker with found = true and the
  index, hence Len, still holds the key. If it compacts, the entry and its index entry
  are dropped: Get(k) misses, returning the default value, and the key is not counted.
\<close>

theorem Set_PtrDeleted:
  assumes "well_formed L d"
  shows "\<exists>d'. Set L d k PtrDeleted = Some d'
           \<and> Items d' = filter (\<lambda>x. getKey L d (Key x) \<noteq> getKey L d k) (Items d)
           \<and> k \<notin> set (Keys d')
           \<and> (tombstones d + (if getKey L d k |\<in>| fmdom (store d) then 1 else 0) < 10 \<longrightarrow>
                Get L d' k = Some (PtrDeleted, True) \<and> getKey L d k |\<in>| fmdom (store d'))
           \<and> (10 \<le> tombstones d + (if getKey L d k |\<in>| fmdom (store d) then 1 else 0) \<longrightarrow>
                Get L d' k = Some (default_value d, False) \<and> getKey L d k |\<notin>| fmdom (store d'))"
proof -
  let ?nk = "getKey L d k"
  obtain xs where xs: "length xs = length (items d)"
    "set' L d k PtrDeleted = Some (maybeCompact L (d\<lparr>store := fmupd ?nk (length xs) (store d),
                     items := xs @ [\<lparr>Key = k, Value = PtrDeleted\<rparr>]\<rparr>))"
    "well_formed L (d\<lparr>store := fmupd ?nk (length xs) (store d),
                     items := xs @ [\<lparr>Key = k, Value = PtrDeleted\<rparr>]\<rparr>)"
    by (rule set'_appended[OF assms, of k PtrDeleted]) blast
  let ?d1 = "d\<lparr>store := fmupd ?nk (length xs) (store d),
                     items := xs @ [\<lparr>Key = k, Value = PtrDeleted\<rparr>]\<rparr>"
  let ?d' = "maybeCompact L ?d1"
  have t1: "tombstones ?d1 = tombstones d + (if ?nk |\<in>| fmdom (store d) then 1 else 0)"
    by (rule tombstones_appended[OF xs(1)])
  have I: "Items ?d' = filter (\<lambda>x. getKey L d (Key x) \<noteq> ?nk) (Items d)"
    using Items_set'[OF assms xs(2)] by simp
  have K: "k \<notin> set (Keys ?d')"
    unfolding Keys_Items I by auto
  have keep: "Get L ?d' k = Some (PtrDeleted, True) \<and> ?nk |\<in>| fmdom (store ?d')"
    if "tombstones ?d1 < 10"
  proof -
    from that have "?d' = ?d1" by (rule maybeCompact_keep)
    then show ?thesis by (simp add: Get_def)
  qed
  have comp: "Get L ?d' k = Some (default_value d, False) \<and> ?nk |\<notin>| fmdom (store ?d')"
    if "10 \<le> tombstones ?d1"
  proof -
    from that have n: "\<not> tombstones ?d1 < 10" by simp
    from maybeCompact_compacts(2)[OF xs(3) n] have io: "index_ok L ?d'" by (simp add: invariant_def)
    have none: "fmlookup (store ?d') ?nk = None"
    proof (rule ccontr)
      assume "fmlookup (store ?d') ?nk \<noteq> None"
      then obtain i where i: "fmlookup (store ?d') ?nk = Some i" by auto
      with io have a: "i < length (items ?d')" "getKey L ?d' (Key (items ?d' ! i)) = ?nk"
        "\<not> IsDeleted (items ?d' ! i)"
        by (auto simp: index_ok_def fmpred_iff)
      then have "items ?d' ! i \<in> set (Items ?d')" by (auto simp: Items_def)
      with I a(2) show False by simp
    qed
    then have "?nk |\<notin>| fmdom (store ?d')" by (simp add: fmdom_notI)
    moreover from none have "Get L ?d' k = Some (default_value d, False)"
      by (simp add: Get_def)
    ultimately show ?thesis by simp
  qed
  from xs(2) I K keep comp t1 show ?thesis by (simp add: Set_def)
qed

theorem Set_PtrDeleted_witness:
  "well_formed \<lparr>strings_ToLower = ascii_lower, ParseFloat = (\<lambda>s. None), time_Parse = (\<lambda>s. None)\<rparr> NewDict
   \<and> tombstones NewDict + (if getKey \<lparr>strings_ToLower = ascii_lower, ParseFloat = (\<lambda>s. None), time_Parse = (\<lambda>s. None)\<rparr> NewDict ''k'' |\<in>| fmdom (store NewDict) then 1 else 0) < 10
   \<and> (\<exists>d'. Set \<lparr>strings_ToLower = ascii_lower, ParseFloat = (\<lambda>s. None), time_Parse = (\<lambda>s. None)\<rparr> NewDict ''k'' PtrDeleted = Some d' \<and> Keys d' = [] \<and> Get \<lparr>strings_ToLower = ascii_lower, ParseFloat = (\<lambda>s. None), time_Parse = (\<lambda>s. None)\<rparr> d' ''k'' = Some (PtrDeleted, True)
          \<and> ''k'' |\<in>| fmdom (store d'))
   \<and> well_formed \<lparr>strings_ToLower = ascii_lower, ParseFloat = (\<lambda>s. None), time_Parse = (\<lambda>s. None)\<rparr> (the (do_calls \<lparr>strings_ToLower = ascii_lower, ParseFloat = (\<lambda>s. None), time_Parse = (\<lambda>s. None)\<rparr> NewDict (replicate 10 (CallSet ''k'' (VInt 1)))))
   \<and> 10 \<le> tombstones (the (do_calls \<lparr>strings_ToLower = ascii_lower, ParseFloat = (\<lambda>s. None), time_Parse = (\<lambda>s. None)\<rparr> NewDict (replicate 10 (CallSet ''k'' (VInt 1))))) + (if getKey \<lparr>strings_ToLower = ascii_lower, ParseFloat = (\<lambda>s. None), time_Parse = (\<lambda>s. None)\<rparr> (the (do_calls \<lparr>strings_ToLower = ascii_lower, ParseFloat = (\<lambda>s. None), time_Parse = (\<lambda>s. None)\<rparr> NewDict (replicate 10 (CallSet ''k'' (VInt 1))))) ''k'' |\<in>| fmdom (store (the (do_calls \<lparr>strings_ToLower = ascii_lower, ParseFloat = (\<lambda>s. None), time_Parse = (\<lambda>s. None)\<rparr> NewDict (replicate 10 (CallSet ''k'' (VInt 1)))))) then 1 else 0)
   \<and> (\<exists>d'. Set \<lparr>strings_ToLower = ascii_lower, ParseFloat = (\<lambda>s. None), time_Parse = (\<lambda>s. None)\<rparr> (the (do_calls \<lparr>strings_ToLower = ascii_lower, ParseFloat = (\<lambda>s. None), time_Parse = (\<lambda>s. None)\<rparr> NewDict (replicate 10 (CallSet ''k'' (VInt 1))))) ''k'' PtrDeleted = Some d' \<and> ''k'' \<notin> set (Keys d') \<and> Get \<lparr>strings_ToLower = ascii_lower, ParseFloat = (\<lambda>s. None), time_Parse = (\<lambda>s. None)\<rparr> d' ''k'' = Some (VNil, False)
          \<and> ''k'' |\<notin>| fmdom (store d'))"
proof -
  have w0: "well_formed \<lparr>strings_ToLower = ascii_lower, ParseFloat = (\<lambda>s. None), time_Parse = (\<lambda>s. None)\<rparr> NewDict" by code_simp
  have t0: "tombstones NewDict + (if getKey \<lparr>strings_ToLower = ascii_lower, ParseFloat = (\<lambda>s. None), time_Parse = (\<lambda>s. None)\<rparr> NewDict ''k'' |\<in>| fmdom (store NewDict) then 1 else 0) < 10"
    by code_simp
  have g0: "getKey \<lparr>strings_ToLower = ascii_lower, ParseFloat = (\<lambda>s. None), time_Parse = (\<lambda>s. None)\<rparr> NewDict ''k'' = ''k''" "Items NewDict = []" by code_simp+
  have w1: "well_formed \<lparr>strings_ToLower = ascii_lower, ParseFloat = (\<lambda>s. None), time_Parse = (\<lambda>s. None)\<rparr> (the (do_calls \<lparr>strings_ToLower = ascii_lower, ParseFloat = (\<lambda>s. None), time_Parse = (\<lambda>s. None)\<rparr> NewDict (replicate 10 (CallSet ''k'' (VInt 1)))))" by code_simp
  have t1: "10 \<le> tombstones (the (do_calls \<lparr>strings_ToLower = ascii_lower, ParseFloat = (\<lambda>s. None), time_Parse = (\<lambda>s. None)\<rparr> NewDict (replicate 10 (CallSet ''k'' (VInt 1))))) + (if getKey \<lparr>strings_ToLower = ascii_lower, ParseFloat = (\<lambda>s. None), time_Parse = (\<lambda>s. None)\<rparr> (the (do_calls \<lparr>strings_ToLower = ascii_lower, ParseFloat = (\<lambda>s. None), time_Parse = (\<lambda>s. None)\<rparr> NewDict (replicate 10 (CallSet ''k'' (VInt 1))))) ''k'' |\<in>| fmdom (store (the (do_calls \<lparr>strings_ToLower = ascii_lower, ParseFloat = (\<lambda>s. None), time_Parse = (\<lambda>s. None)\<rparr> NewDict (replicate 10 (CallSet ''k'' (VInt 1)))))) then 1 else 0)"
    by code_simp
  have g1: "getKey \<lparr>strings_ToLower = ascii_lower, ParseFloat = (\<lambda>s. None), time_Parse = (\<lambda>s. None)\<rparr> (the (do_calls \<lparr>strings_ToLower = ascii_lower, ParseFloat = (\<lambda>s. None), time_Parse = (\<lambda>s. None)\<rparr> NewDict (replicate 10 (CallSet ''k'' (VInt 1))))) ''k'' = ''k''" "default_value (the (do_calls \<lparr>strings_ToLower = ascii_lower, ParseFloat = (\<lambda>s. None), time_Parse = (\<lambda>s. None)\<rparr> NewDict (replicate 10 (CallSet ''k'' (VInt 1))))) = VNil" by code_simp+
  from Set_PtrDeleted[OF w0, of "''k''"] t0 g0
  have a: "\<exists>d'. Set \<lparr>strings_ToLower = ascii_lower, ParseFloat = (\<lambda>s. None), time_Parse = (\<lambda>s. None)\<rparr> NewDict ''k'' PtrDeleted = Some d' \<and> Keys d' = [] \<and> Get \<lparr>strings_ToLower = ascii_lower, ParseFloat = (\<lambda>s. None), time_Parse = (\<lambda>s. None)\<rparr> d' ''k'' = Some (PtrDeleted, True)
          \<and> ''k'' |\<in>| fmdom (store d')"
    by (auto simp: Keys_Items)
  from Set_PtrDeleted[OF w1, of "''k''"] t1 g1
  have b: "\<exists>d'. Set \<lparr>strings_ToLower = ascii_lower, ParseFloat = (\<lambda>s. None), time_Parse = (\<lambda>s. None)\<rparr> (the (do_calls \<lparr>strings_ToLower = ascii_lower, ParseFloat = (\<lambda>s. None), time_Parse = (\<lambda>s. None)\<rparr> NewDict (replicate 10 (CallSet ''k'' (VInt 1))))) ''k'' PtrDeleted = Some d' \<and> ''k'' \<notin> set (Keys d') \<and> Get \<lparr>strings_ToLower = ascii_lower, ParseFloat = (\<lambda>s. None), time_Parse = (\<lambda>s. None)\<rparr> d' ''k'' = Some (VNil, False)
          \<and> ''k'' |\<notin>| fmdom (store d')"
    by auto
  from w0 t0 a w1 t1 b show ?thesis by simp
qed

end
